theory Spec2Isabelle
  imports Main "HOL-Library.Multiset"
begin

section \<open>The crawler of \<open>advanced_crawler.py\<close>\<close>

text \<open>
  The script keeps one module-level set \<open>visited_urls\<close>, loads pages through one
  Selenium driver and parses them with BeautifulSoup. What the script reads from a parsed
  page is: the \<open>link rel=canonical\<close> tag, the two \<open>meta\<close> tags, the \<open>img src\<close>
  list and the anchors with an \<open>href\<close>. A page is modelled as exactly these readings.
\<close>

subsection \<open>Parsed pages\<close>

text \<open>
  \<open>soup.find(...)[key]\<close>: the tag is not in the page (\<open>find\<close> returns \<open>None\<close>), the
  tag is there without the attribute (the subscript raises \<open>KeyError\<close>), or the
  attribute's value.
\<close>

datatype attr = NoTag | NoAttr | Attr string

text \<open>
  An anchor of \<open>soup.find_all('a', href=True)\<close>: its \<open>href\<close> and \<open>link.get('rel')\<close>,
  which is \<open>None\<close> without a \<open>rel\<close> attribute and the list of its tokens otherwise.
\<close>

datatype anchor = Anchor (href: string) (rel: "string list option")

datatype page = Page
  (canonical: attr)
  (meta_description: attr)
  (meta_keywords: attr)
  (images: "string list")
  (anchors: "anchor list")

subsection \<open>The world outside the script\<close>

text \<open>
  \<open>driver_get u n\<close> is what \<open>driver.get(u); driver.page_source\<close> followed by the parse
  gives at the \<open>n\<close>-th load of \<open>u\<close> (counted from 0): \<open>None\<close> when an exception is
  raised, the parsed page otherwise. \<open>urljoin\<close> and \<open>netloc\<close> are the two functions of
  \<open>urllib.parse\<close> the script calls (\<open>netloc u\<close> is \<open>urlparse(u).netloc\<close>);
  \<open>random_choice k\<close> is the \<open>k\<close>-th draw of \<open>random.choice\<close>. The two \<open>urllib\<close>
  functions are taken as total: a string on which they raise \<open>ValueError\<close> (brackets
  that do not match in the network location) is outside this model.
\<close>

record env =
  driver_get :: "string \<Rightarrow> nat \<Rightarrow> page option"
  urljoin :: "string \<Rightarrow> string \<Rightarrow> string"
  netloc :: "string \<Rightarrow> string"
  random_choice :: "nat \<Rightarrow> string list \<Rightarrow> string"

subsection \<open>The state of the process\<close>

text \<open>
  \<open>visited_urls\<close> is the global set (kept as a duplicate-free list: the script also
  iterates over it), \<open>save_results\<close> the list the rows are appended to. The other three
  fields record effects on the outside: every \<open>driver.get\<close> with the remaining depth of
  the call that issued it, every \<open>logging.error\<close> with its URL, and every
  \<open>ThreadPoolExecutor\<close> created with the number of tasks handed to it.
\<close>

type_synonym row = "string \<times> string \<times> string \<times> string list"

record state =
  visited_urls :: "string list"
  save_results :: "row list"
  fetch_log :: "(string \<times> nat) list"
  error_log :: "string list"
  pools :: "nat list"

definition visited_add :: "string \<Rightarrow> state \<Rightarrow> state" where
  "visited_add u s = s\<lparr>visited_urls := List.insert u (visited_urls s)\<rparr>"

definition log_error :: "string \<Rightarrow> state \<Rightarrow> state" where
  "log_error u s = s\<lparr>error_log := error_log s @ [u]\<rparr>"

text \<open>The URLs of the rows, and the URLs of the loads, in order.\<close>

definition result_urls :: "state \<Rightarrow> string list" where
  "result_urls s = map fst (save_results s)"

definition fetched_urls :: "state \<Rightarrow> string list" where
  "fetched_urls s = map fst (fetch_log s)"

subsection \<open>\<open>extract_domain\<close>, \<open>is_same_domain\<close>, \<open>extract_content\<close>\<close>

definition extract_domain :: "env \<Rightarrow> string \<Rightarrow> string" where
  "extract_domain E url = netloc E url"

definition is_same_domain :: "env \<Rightarrow> string \<Rightarrow> string \<Rightarrow> bool" where
  "is_same_domain E start_url link_url = (extract_domain E start_url = extract_domain E link_url)"

text \<open>
  \<open>extract_content\<close> subscripts each \<open>meta\<close> tag it finds with \<open>['content']\<close>; a tag
  without that attribute raises, which is \<open>None\<close> here. The page text is computed and
  never stored, so it is left out.
\<close>

definition meta_content :: "attr \<Rightarrow> string option" where
  "meta_content a = (case a of NoTag \<Rightarrow> Some [] | NoAttr \<Rightarrow> None | Attr c \<Rightarrow> Some c)"

definition extract_content :: "page \<Rightarrow> (string \<times> string \<times> string list) option" where
  "extract_content pg =
     (case meta_content (meta_description pg) of
        None \<Rightarrow> None
      | Some d \<Rightarrow>
          (case meta_content (meta_keywords pg) of
             None \<Rightarrow> None
           | Some k \<Rightarrow> Some (d, k, images pg)))"

subsection \<open>\<open>is_spider_trap\<close>\<close>

text \<open>\<open>url.split('/')\<close>: the pieces between the slashes, empty pieces included.\<close>

fun split_slash :: "string \<Rightarrow> string list" where
  "split_slash [] = [[]]"
| "split_slash (c # cs) =
     (if c = CHR ''/'' then [] # split_slash cs
      else (case split_slash cs of [] \<Rightarrow> [[c]] | w # ws \<Rightarrow> (c # w) # ws))"

text \<open>
  \<open>len(set(url.split('/'))) < len(url.split('/')) / 2\<close>. The right-hand side is a true
  division, so the comparison is between an integer and a half-integer: it holds exactly
  when twice the number of distinct pieces is below the number of pieces.
\<close>

definition is_spider_trap :: "string \<Rightarrow> bool" where
  "is_spider_trap url = (2 * card (set (split_slash url)) < length (split_slash url))"

subsection \<open>\<open>fetch_url\<close>\<close>

text \<open>Line 89: \<open>random.choice(proxies) if proxies else None\<close>.\<close>

definition choose_proxy :: "env \<Rightarrow> nat \<Rightarrow> string list option \<Rightarrow> string option" where
  "choose_proxy E k proxies =
     (case proxies of
        None \<Rightarrow> None
      | Some ps \<Rightarrow> if ps = [] then None else Some (random_choice E k ps))"

text \<open>
  Lines 97 to 99: the URL the call goes on with. \<open>None\<close> is the \<open>KeyError\<close> of a
  canonical tag without \<open>href\<close>.
\<close>

definition canonical_url :: "page \<Rightarrow> string \<Rightarrow> string list \<Rightarrow> string option" where
  "canonical_url pg url vis =
     (case canonical pg of
        NoTag \<Rightarrow> Some url
      | NoAttr \<Rightarrow> None
      | Attr h \<Rightarrow> Some (if h \<notin> set vis then h else url))"

definition startswith_http :: "string \<Rightarrow> bool" where
  "startswith_http u = (take 4 u = ''http'')"

text \<open>Lines 111 to 126: the loop over the anchors, with its three filters in order.\<close>

fun collect_links :: "env \<Rightarrow> bool \<Rightarrow> string \<Rightarrow> string list \<Rightarrow> anchor list \<Rightarrow> string list" where
  "collect_links E domain_restriction url vis [] = []"
| "collect_links E domain_restriction url vis (link # rest) =
     (let full_url = urljoin E url (href link) in
      if rel link = Some [''nofollow''] then collect_links E domain_restriction url vis rest
      else if domain_restriction \<and> \<not> is_same_domain E url full_url
        then collect_links E domain_restriction url vis rest
      else if startswith_http full_url \<and> full_url \<notin> set vis
        then full_url # collect_links E domain_restriction url vis rest
      else collect_links E domain_restriction url vis rest)"

text \<open>
  The body of \<open>fetch_url\<close>. Every exception inside the \<open>try\<close> ends the call with one
  \<open>logging.error\<close>. \<open>executor.map\<close> hands one recursive call per link to the pool of
  the page and the \<open>with\<close> block waits for all of them; here the calls run one after the
  other in the order of \<open>links\<close>, which is one of the schedules of the pool.
  \<open>time.sleep(rate_limit)\<close> changes nothing that is recorded. The depth is a natural
  number: \<open>bfs_crawl\<close>, the only caller, passes a positive one.
\<close>

function fetch_url ::
  "env \<Rightarrow> string \<Rightarrow> nat \<Rightarrow> bool \<Rightarrow> 'r \<Rightarrow> string list option \<Rightarrow> state \<Rightarrow> state" where
  "fetch_url E url depth domain_restriction rate_limit proxies s =
     (if depth = 0 \<or> url \<in> set (visited_urls s) \<or> is_spider_trap url then s
      else
        let proxy = choose_proxy E (length (fetch_log s)) proxies;
            n = count_list (map fst (fetch_log s)) url;
            s1 = s\<lparr>fetch_log := fetch_log s @ [(url, depth)]\<rparr>
        in case driver_get E url n of
             None \<Rightarrow> log_error url s1
           | Some pg \<Rightarrow>
               (case canonical_url pg url (visited_urls s1) of
                  None \<Rightarrow> log_error url s1
                | Some url' \<Rightarrow>
                    let s2 = visited_add url' s1 in
                    (case extract_content pg of
                       None \<Rightarrow> log_error url' s2
                     | Some (d, k, imgs) \<Rightarrow>
                         let s3 = s2\<lparr>save_results := save_results s2 @ [(url', d, k, imgs)]\<rparr>;
                             links = collect_links E domain_restriction url' (visited_urls s3) (anchors pg);
                             s4 = s3\<lparr>pools := pools s3 @ [length links]\<rparr>
                         in fold (\<lambda>u. fetch_url E u (depth - 1) domain_restriction rate_limit proxies)
                              links s4)))"
  by pat_completeness auto
termination
  by (relation "measure (\<lambda>(E, url, depth, r). depth)") auto

text \<open>
  The part of the body between the test of line 84 and the hand-over to the pool, as a
  function of its own: the state it leaves and the links it submits (none after an
  exception). \<open>fetch_url_unfold\<close> below shows that \<open>fetch_url\<close> is this step followed
  by the recursive calls.
\<close>

definition process_page :: "env \<Rightarrow> bool \<Rightarrow> string \<Rightarrow> nat \<Rightarrow> state \<Rightarrow> state \<times> string list" where
  "process_page E domain_restriction url depth s =
     (let s1 = s\<lparr>fetch_log := fetch_log s @ [(url, depth)]\<rparr>
      in case driver_get E url (count_list (map fst (fetch_log s)) url) of
           None \<Rightarrow> (log_error url s1, [])
         | Some pg \<Rightarrow>
             (case canonical_url pg url (visited_urls s1) of
                None \<Rightarrow> (log_error url s1, [])
              | Some url' \<Rightarrow>
                  let s2 = visited_add url' s1 in
                  (case extract_content pg of
                     None \<Rightarrow> (log_error url' s2, [])
                   | Some (d, k, imgs) \<Rightarrow>
                       let s3 = s2\<lparr>save_results := save_results s2 @ [(url', d, k, imgs)]\<rparr>;
                           links = collect_links E domain_restriction url' (visited_urls s3) (anchors pg)
                       in (s3\<lparr>pools := pools s3 @ [length links]\<rparr>, links))))"

subsection \<open>\<open>bfs_crawl\<close> and \<open>web_crawler\<close>\<close>

text \<open>
  The \<open>while queue\<close> loop of \<open>bfs_crawl\<close>. \<open>start0\<close> is \<open>start_urls[0]\<close>, which the
  loop body reads; \<open>depth\<close> is the integer of the command line and may be negative. After
  each \<open>fetch_url\<close> the loop appends every visited URL of the first seed's domain with
  the next depth. Python iterates over the set in an order of its own; here it is the
  order of the list, and \<open>bfs_crawl_fold\<close> below shows that the order has no effect,
  since every appended entry is skipped.
\<close>

definition entry_weight :: "int \<Rightarrow> string \<times> int \<Rightarrow> nat" where
  "entry_weight depth e = nat (depth - snd e)"

function bfs_loop ::
  "env \<Rightarrow> string \<Rightarrow> int \<Rightarrow> bool \<Rightarrow> 'r \<Rightarrow> string list option \<Rightarrow> (string \<times> int) list \<Rightarrow> state \<Rightarrow> state" where
  "bfs_loop E start0 depth domain_restriction rate_limit proxies [] s = s"
| "bfs_loop E start0 depth domain_restriction rate_limit proxies ((url, current_depth) # queue) s =
     (if current_depth \<ge> depth \<or> url \<in> set (visited_urls s)
      then bfs_loop E start0 depth domain_restriction rate_limit proxies queue s
      else
        let s' = fetch_url E url (nat (depth - current_depth)) domain_restriction rate_limit proxies s;
            links_to_crawl = filter (is_same_domain E start0) (visited_urls s')
        in bfs_loop E start0 depth domain_restriction rate_limit proxies
             (queue @ map (\<lambda>link. (link, current_depth + 1)) links_to_crawl) s')"
  by pat_completeness auto

text \<open>
  The loop ends because an entry that is not skipped has a depth below \<open>depth\<close> and is
  replaced by entries one level deeper: the multiset of the distances \<open>depth - d\<close> of the
  queued entries goes down in the multiset order.
\<close>

definition queue_weight :: "int \<Rightarrow> (string \<times> int) list \<Rightarrow> nat multiset" where
  "queue_weight depth queue = mset (map (entry_weight depth) queue)"

definition bfs_order ::
  "((env \<times> string \<times> int \<times> bool \<times> 'r \<times> string list option \<times> (string \<times> int) list \<times> state) \<times>
    (env \<times> string \<times> int \<times> bool \<times> 'r \<times> string list option \<times> (string \<times> int) list \<times> state)) set" where
  "bfs_order = inv_image (mult {(a, b). a < (b::nat)})
     (\<lambda>(E, start0, depth, dr, rl, proxies, queue, s). queue_weight depth queue)"

lemma wf_bfs_order: "wf bfs_order"
  unfolding bfs_order_def by (intro wf_inv_image wf_mult) (simp add: wf)

lemma queue_weight_skip:
  "(queue_weight depth queue, queue_weight depth (e # queue)) \<in> mult {(a, b). a < (b::nat)}"
proof -
  have "(queue_weight depth queue + {#}, queue_weight depth queue + {#entry_weight depth e#})
          \<in> mult {(a, b). a < (b::nat)}"
    by (rule one_step_implies_mult) simp_all
  then show ?thesis by (simp add: queue_weight_def)
qed

lemma queue_weight_push:
  assumes "current_depth < depth"
  shows "(queue_weight depth (queue @ map (\<lambda>link. (link, current_depth + 1)) links),
          queue_weight depth ((url, current_depth) # queue)) \<in> mult {(a, b). a < (b::nat)}"
proof -
  have "(queue_weight depth queue + mset (map (\<lambda>link. entry_weight depth (link, current_depth + 1)) links),
         queue_weight depth queue + {#entry_weight depth (url, current_depth)#})
          \<in> mult {(a, b). a < (b::nat)}"
    using assms by (intro one_step_implies_mult) (auto simp: entry_weight_def)
  then show ?thesis by (simp add: queue_weight_def comp_def)
qed

termination bfs_loop
proof (relation bfs_order)
  show "wf bfs_order" by (rule wf_bfs_order)
qed (simp_all add: bfs_order_def queue_weight_skip queue_weight_push)

definition bfs_crawl ::
  "env \<Rightarrow> string list \<Rightarrow> int \<Rightarrow> bool \<Rightarrow> 'r \<Rightarrow> string list option \<Rightarrow> state \<Rightarrow> state" where
  "bfs_crawl E start_urls depth domain_restriction rate_limit proxies s =
     (case start_urls of
        [] \<Rightarrow> s
      | start0 # _ \<Rightarrow>
          bfs_loop E start0 depth domain_restriction rate_limit proxies
            (map (\<lambda>url. (url, 0)) start_urls) s)"

text \<open>
  \<open>web_crawler\<close> makes the empty list \<open>save_results\<close> and runs \<open>bfs_crawl\<close> on it;
  nothing touches \<open>visited_urls\<close> before the crawl starts. The rows of \<open>save_results\<close>
  are what \<open>save_to_file\<close> then writes.
\<close>

definition web_crawler ::
  "env \<Rightarrow> string list \<Rightarrow> int \<Rightarrow> bool \<Rightarrow> 'r \<Rightarrow> string list option \<Rightarrow> state \<Rightarrow> state" where
  "web_crawler E urls depth domain_restriction rate_limit proxies s =
     bfs_crawl E urls depth domain_restriction rate_limit proxies (s\<lparr>save_results := []\<rparr>)"

text \<open>The state of a process that has just loaded the module.\<close>

definition init_state :: state where
  "init_state = \<lparr>visited_urls = [], save_results = [], fetch_log = [], error_log = [], pools = []\<rparr>"

text \<open>
  What one seed costs: \<open>bfs_crawl_fold\<close> below shows that the loop does this for each
  seed in turn and nothing else, because every entry it appends is a visited URL.
\<close>

definition crawl_seed ::
  "env \<Rightarrow> int \<Rightarrow> bool \<Rightarrow> 'r \<Rightarrow> string list option \<Rightarrow> string \<Rightarrow> state \<Rightarrow> state" where
  "crawl_seed E depth domain_restriction rate_limit proxies url s =
     (if depth \<le> 0 \<or> url \<in> set (visited_urls s) then s
      else fetch_url E url (nat depth) domain_restriction rate_limit proxies s)"

subsection \<open>The workers of the pools, interleaved\<close>

text \<open>
  \<open>executor.map\<close> runs the recursive calls in threads that share \<open>visited_urls\<close>,
  \<open>save_results\<close> and the driver. A call is observed at two points: before the test of
  line 84 (\<open>Enter\<close>) and after it has passed the test (\<open>Body\<close>); the rest of the body,
  \<open>process_page\<close>, runs as one step and leaves one \<open>Enter\<close> task per submitted link. A
  thread can lose the processor between the two points (it does while another
  \<open>driver.get\<close> blocks), so every run of this model is a run of the threads. The parent
  of a pool only waits and sleeps after the hand-over, so it is dropped from the pool of
  tasks; \<open>max_workers=10\<close> is not enforced here, which matters only for a page that
  submits more than ten links.
\<close>

datatype task = Enter string nat | Body string nat

fun exec_task :: "env \<Rightarrow> bool \<Rightarrow> task \<Rightarrow> state \<Rightarrow> state \<times> task list" where
  "exec_task E domain_restriction (Enter url depth) s =
     (if depth = 0 \<or> url \<in> set (visited_urls s) \<or> is_spider_trap url then (s, [])
      else (s, [Body url depth]))"
| "exec_task E domain_restriction (Body url depth) s =
     (case process_page E domain_restriction url depth s of
        (s', links) \<Rightarrow> (s', map (\<lambda>u. Enter u (depth - 1)) links))"

text \<open>The scheduler picks the \<open>i\<close>-th live task; a schedule is the list of its picks.\<close>

definition run_task :: "env \<Rightarrow> bool \<Rightarrow> nat \<Rightarrow> state \<times> task list \<Rightarrow> state \<times> task list" where
  "run_task E domain_restriction i c =
     (case c of (s, ts) \<Rightarrow>
        if i < length ts
        then (case exec_task E domain_restriction (ts ! i) s of
                (s', new) \<Rightarrow> (s', take i ts @ new @ drop (Suc i) ts))
        else c)"

definition run_schedule ::
  "env \<Rightarrow> bool \<Rightarrow> nat list \<Rightarrow> state \<times> task list \<Rightarrow> state \<times> task list" where
  "run_schedule E domain_restriction sched c = fold (run_task E domain_restriction) sched c"

inductive pool_step :: "env \<Rightarrow> bool \<Rightarrow> state \<times> task list \<Rightarrow> state \<times> task list \<Rightarrow> bool"
  for E domain_restriction where
  "i < length ts \<Longrightarrow> exec_task E domain_restriction (ts ! i) s = (s', new) \<Longrightarrow>
   pool_step E domain_restriction (s, ts) (s', take i ts @ new @ drop (Suc i) ts)"

fun task_weight :: "task \<Rightarrow> nat" where
  "task_weight (Enter url depth) = 3 * depth"
| "task_weight (Body url depth) = (if depth = 0 then 1 else 3 * depth - 1)"

definition pool_weight :: "state \<times> task list \<Rightarrow> nat multiset" where
  "pool_weight c = mset (map task_weight (snd c))"

fun is_body :: "task \<Rightarrow> bool" where
  "is_body (Body url depth) = True"
| "is_body (Enter url depth) = False"

subsection \<open>The threads of the pools, line by line\<close>

text \<open>
  A finer view of the same threads, for counting the workers: every access to
  \<open>visited_urls\<close>, \<open>save_results\<close> and the driver is a step of its own, a thread keeps
  its place while it waits for the pool it has created, and a pool starts a queued task
  only while fewer than \<open>max_workers\<close> of its tasks are running. \<open>driver.get\<close>,
  \<open>driver.page_source\<close> and the parse are one step.
\<close>

datatype point =
    Queued
  | L84
  | L92
  | L98 page
  | L101 page
  | L108 page
  | L112 "anchor list" "string list"
  | L129 "string list"
  | Waiting nat

text \<open>
  A thread of a pool: the pool it was submitted to (\<open>None\<close> for the main thread, which
  runs the call of \<open>bfs_crawl\<close>), the arguments \<open>url\<close> and \<open>depth\<close> of its call of
  \<open>fetch_url\<close> (line 99 may replace the URL), and where it stands.
\<close>

datatype thread = Thread (pool_of: "nat option") (th_url: string) (th_depth: nat) (at: point)

text \<open>
  Line 129: \<open>ThreadPoolExecutor(max_workers=10)\<close>. A pool runs at most that many of its
  tasks at a time; the others stay queued. \<open>running q ts\<close> counts the tasks of pool \<open>q\<close>
  that have been started and have not returned, \<open>pool_live q ts\<close> says that pool \<open>q\<close>
  still has a task that has not returned.
\<close>

definition max_workers :: nat where
  "max_workers = 10"

definition running :: "nat \<Rightarrow> thread list \<Rightarrow> nat" where
  "running q ts = length (filter (\<lambda>t. pool_of t = Some q \<and> at t \<noteq> Queued) ts)"

definition pool_live :: "nat \<Rightarrow> thread list \<Rightarrow> bool" where
  "pool_live q ts = list_ex (\<lambda>t. pool_of t = Some q) ts"

text \<open>
  One step of the thread \<open>t\<close> among the threads \<open>ts\<close>: the new state, what stands in
  the place of \<open>t\<close> afterwards (nothing when the call has returned), and the threads it
  submits. A queued task starts when its pool runs fewer than \<open>max_workers\<close> tasks;
  then come the test of line 84, the load of lines 89 to 94, the test of lines 97 to 99,
  line 101, lines 104 to 108, one turn of the loop of line 112 per anchor, the pool and
  its tasks of lines 129 and 130, and the end of the \<open>with\<close> block, which waits until
  every task of the pool has returned. An exception ends the call with one
  \<open>logging.error\<close>.
\<close>

fun thread_step ::
  "env \<Rightarrow> bool \<Rightarrow> thread list \<Rightarrow> thread \<Rightarrow> state \<Rightarrow> state \<times> thread list \<times> thread list" where
  "thread_step E dr ts (Thread p url depth Queued) s =
     (if (case p of None \<Rightarrow> True | Some q \<Rightarrow> running q ts < max_workers)
      then (s, [Thread p url depth L84], [])
      else (s, [Thread p url depth Queued], []))"
| "thread_step E dr ts (Thread p url depth L84) s =
     (if depth = 0 \<or> url \<in> set (visited_urls s) \<or> is_spider_trap url then (s, [], [])
      else (s, [Thread p url depth L92], []))"
| "thread_step E dr ts (Thread p url depth L92) s =
     (let s1 = s\<lparr>fetch_log := fetch_log s @ [(url, depth)]\<rparr>
      in case driver_get E url (count_list (map fst (fetch_log s)) url) of
           None \<Rightarrow> (log_error url s1, [], [])
         | Some pg \<Rightarrow> (s1, [Thread p url depth (L98 pg)], []))"
| "thread_step E dr ts (Thread p url depth (L98 pg)) s =
     (case canonical_url pg url (visited_urls s) of
        None \<Rightarrow> (log_error url s, [], [])
      | Some url' \<Rightarrow> (s, [Thread p url' depth (L101 pg)], []))"
| "thread_step E dr ts (Thread p url depth (L101 pg)) s =
     (visited_add url s, [Thread p url depth (L108 pg)], [])"
| "thread_step E dr ts (Thread p url depth (L108 pg)) s =
     (case extract_content pg of
        None \<Rightarrow> (log_error url s, [], [])
      | Some (d, k, imgs) \<Rightarrow>
          (s\<lparr>save_results := save_results s @ [(url, d, k, imgs)]\<rparr>,
           [Thread p url depth (L112 (anchors pg) [])], []))"
| "thread_step E dr ts (Thread p url depth (L112 [] links)) s =
     (s, [Thread p url depth (L129 links)], [])"
| "thread_step E dr ts (Thread p url depth (L112 (link # rest) links)) s =
     (s, [Thread p url depth (L112 rest (links @ collect_links E dr url (visited_urls s) [link]))], [])"
| "thread_step E dr ts (Thread p url depth (L129 links)) s =
     (s\<lparr>pools := pools s @ [length links]\<rparr>,
      [Thread p url depth (Waiting (length (pools s)))],
      map (\<lambda>u. Thread (Some (length (pools s))) u (depth - 1) Queued) links)"
| "thread_step E dr ts (Thread p url depth (Waiting q)) s =
     (if pool_live q ts then (s, [Thread p url depth (Waiting q)], []) else (s, [], []))"

text \<open>The scheduler picks the \<open>i\<close>-th thread; a schedule is the list of its picks.\<close>

definition run_thread :: "env \<Rightarrow> bool \<Rightarrow> nat \<Rightarrow> state \<times> thread list \<Rightarrow> state \<times> thread list" where
  "run_thread E dr i c =
     (case c of (s, ts) \<Rightarrow>
        if i < length ts
        then (case thread_step E dr ts (ts ! i) s of
                (s', repl, new) \<Rightarrow> (s', take i ts @ repl @ drop (Suc i) ts @ new))
        else c)"

definition run_threads :: "env \<Rightarrow> bool \<Rightarrow> nat list \<Rightarrow> state \<times> thread list \<Rightarrow> state \<times> thread list" where
  "run_threads E dr sched c = fold (run_thread E dr) sched c"

text \<open>
  A pool worker that is running a call; a call that has appended its row and not yet
  created its pool (it stands in the loop of line 112 or before line 129); a thread
  whose pool is one of those created since the pool counter was \<open>lo\<close>; and what holds
  of the threads that one call of \<open>fetch_url\<close> in the state \<open>s\<close> has started.
\<close>

definition is_worker :: "thread \<Rightarrow> bool" where
  "is_worker t = (pool_of t \<noteq> None \<and> at t \<noteq> Queued)"


fun past_row :: "thread \<Rightarrow> bool" where
  "past_row (Thread p url depth (L112 as links)) = True"
| "past_row (Thread p url depth (L129 links)) = True"
| "past_row t = False"

definition pool_in :: "nat \<Rightarrow> nat \<Rightarrow> thread \<Rightarrow> bool" where
  "pool_in lo hi t = (case pool_of t of None \<Rightarrow> True | Some q \<Rightarrow> lo \<le> q \<and> q < hi)"

definition threads_inv :: "state \<Rightarrow> state \<times> thread list \<Rightarrow> bool" where
  "threads_inv s c =
     (length (pools s) \<le> length (pools (fst c)) \<and>
      list_all (pool_in (length (pools s)) (length (pools (fst c)))) (snd c) \<and>
      (\<forall>q. running q (snd c) \<le> max_workers) \<and>
      length (pools (fst c)) + length (filter past_row (snd c)) + length (save_results s) =
        length (pools s) + length (save_results (fst c)))"

text \<open>
  \<open>reaches E dr c c'\<close>: some schedule leads from the threads and the state \<open>c\<close> to \<open>c'\<close>.
\<close>

definition reaches :: "env \<Rightarrow> bool \<Rightarrow> state \<times> thread list \<Rightarrow> state \<times> thread list \<Rightarrow> bool" where
  "reaches E dr c c' = (\<exists>sched. run_threads E dr sched c = c')"

subsection \<open>Links, distances and the rows of a crawl\<close>

text \<open>
  \<open>links_to E u v\<close>: some load of \<open>u\<close> gives a page with an anchor that \<open>urljoin\<close>
  resolves to \<open>v\<close>, against \<open>u\<close> or against the canonical URL of the page.
  \<open>link_dist E k u v\<close>: \<open>v\<close> is reached from \<open>u\<close> over \<open>k\<close> such links.
  \<open>recorded_from E v u\<close>: a page loaded from \<open>v\<close> is recorded under \<open>u\<close>, which is
  \<open>v\<close> or the page's canonical URL.
\<close>

definition links_to :: "env \<Rightarrow> string \<Rightarrow> string \<Rightarrow> bool" where
  "links_to E u v =
     (\<exists>n pg base a. driver_get E u n = Some pg \<and> (base = u \<or> canonical pg = Attr base) \<and>
        a \<in> set (anchors pg) \<and> v = urljoin E base (href a))"

inductive link_dist :: "env \<Rightarrow> nat \<Rightarrow> string \<Rightarrow> string \<Rightarrow> bool" for E where
  here: "link_dist E 0 u u"
| hop: "link_dist E k u v \<Longrightarrow> links_to E v w \<Longrightarrow> link_dist E (Suc k) u w"

definition recorded_from :: "env \<Rightarrow> string \<Rightarrow> string \<Rightarrow> bool" where
  "recorded_from E v u = (u = v \<or> (\<exists>n pg. driver_get E v n = Some pg \<and> canonical pg = Attr u))"

text \<open>
  What holds of an entry \<open>(v, r)\<close> that a call \<open>fetch_url url d\<close> adds to the log of
  loads when it starts with the visited URLs \<open>vis\<close>, and of a row it adds.
\<close>

definition fetch_ok :: "env \<Rightarrow> string list \<Rightarrow> string \<Rightarrow> nat \<Rightarrow> string \<times> nat \<Rightarrow> bool" where
  "fetch_ok E vis url d e =
     (1 \<le> snd e \<and> snd e \<le> d \<and> link_dist E (d - snd e) url (fst e) \<and> fst e \<notin> set vis)"

definition row_ok :: "env \<Rightarrow> string \<Rightarrow> nat \<Rightarrow> row \<Rightarrow> bool" where
  "row_ok E url d r = (\<exists>v k. k < d \<and> link_dist E k url v \<and> recorded_from E v (fst r))"

text \<open>The same for a whole crawl from the seeds with the maximum depth \<open>depth\<close>.\<close>

definition fetch_within :: "env \<Rightarrow> string list \<Rightarrow> int \<Rightarrow> string \<times> nat \<Rightarrow> bool" where
  "fetch_within E seeds depth e =
     (1 \<le> snd e \<and> int (snd e) \<le> depth \<and>
      list_ex (\<lambda>seed. link_dist E (nat depth - snd e) seed (fst e)) seeds)"

definition row_within :: "env \<Rightarrow> string list \<Rightarrow> int \<Rightarrow> row \<Rightarrow> bool" where
  "row_within E seeds depth r =
     (\<exists>v k. int k < depth \<and> list_ex (\<lambda>seed. link_dist E k seed v) seeds \<and>
        recorded_from E v (fst r))"

text \<open>
  What holds while the workers started by one call \<open>fetch_url url d\<close> in the state \<open>s\<close>
  run, in any order: of the loads and rows added so far, of the visited set, of the
  number of pools, and of the tasks that are still live.
\<close>

fun task_url :: "task \<Rightarrow> string" where
  "task_url (Enter url depth) = url"
| "task_url (Body url depth) = url"

fun task_depth :: "task \<Rightarrow> nat" where
  "task_depth (Enter url depth) = depth"
| "task_depth (Body url depth) = depth"

definition task_ok :: "env \<Rightarrow> string list \<Rightarrow> string \<Rightarrow> nat \<Rightarrow> task \<Rightarrow> bool" where
  "task_ok E vis url d t =
     (task_depth t \<le> d \<and> link_dist E (d - task_depth t) url (task_url t) \<and>
      (if is_body t then 1 \<le> task_depth t \<and> task_url t \<notin> set vis else True))"

definition schedule_inv :: "env \<Rightarrow> state \<Rightarrow> string \<Rightarrow> nat \<Rightarrow> state \<times> task list \<Rightarrow> bool" where
  "schedule_inv E s url d c =
     ((\<exists>new. fetch_log (fst c) = fetch_log s @ new \<and> list_all (fetch_ok E (visited_urls s) url d) new) \<and>
      set (visited_urls s) \<subseteq> set (visited_urls (fst c)) \<and>
      (\<exists>rows. save_results (fst c) = save_results s @ rows \<and> list_all (row_ok E url d) rows) \<and>
      length (pools (fst c)) + length (save_results s) = length (pools s) + length (save_results (fst c)) \<and>
      list_all (task_ok E (visited_urls s) url d) (snd c))"

text \<open>
  What holds of the rows when the workers of every pool run one after the other: their
  URLs are pairwise different and visited.
\<close>

definition dedup_inv :: "state \<Rightarrow> bool" where
  "dedup_inv s = (distinct (result_urls s) \<and> set (result_urls s) \<subseteq> set (visited_urls s))"

subsection \<open>A concrete web\<close>

text \<open>
  For running the crawler on explicit pages: \<open>urlparse(u).netloc\<close> for a URL without
  leading blanks or control characters, as \<open>urllib.parse.urlsplit\<close> computes it (a
  scheme is split off at the first colon when everything before it is a scheme character
  and the first character is a letter; the network location is what follows \<open>//\<close> up to
  the first of \<open>/\<close>, \<open>?\<close> and \<open>#\<close>).
\<close>

definition scheme_char :: "char \<Rightarrow> bool" where
  "scheme_char c = (c \<in> set ''abcdefghijklmnopqrstuvwxyzABCDEFGHIJKLMNOPQRSTUVWXYZ0123456789+-.'')"

definition alpha_char :: "char \<Rightarrow> bool" where
  "alpha_char c = (c \<in> set ''abcdefghijklmnopqrstuvwxyzABCDEFGHIJKLMNOPQRSTUVWXYZ'')"

definition strip_scheme :: "string \<Rightarrow> string" where
  "strip_scheme u =
     (let pre = takeWhile (\<lambda>c. c \<noteq> CHR '':'') u in
      if CHR '':'' \<in> set u \<and> pre \<noteq> [] \<and> alpha_char (hd pre) \<and> list_all scheme_char pre
      then drop (Suc (length pre)) u else u)"

definition netloc_of :: "string \<Rightarrow> string" where
  "netloc_of u =
     (let r = strip_scheme u in
      if take 2 r = ''//'' then takeWhile (\<lambda>c. c \<notin> set ''/?#'') (drop 2 r) else [])"

text \<open>
  A web given as a table from URL to the successive outcomes of loading it (the last
  outcome repeats; a URL outside the table cannot be loaded). All links of the examples
  are absolute \<open>http\<close> URLs, which \<open>urljoin\<close> returns unchanged.
\<close>

fun nth_outcome :: "page option list \<Rightarrow> nat \<Rightarrow> page option" where
  "nth_outcome [] n = None"
| "nth_outcome [x] n = x"
| "nth_outcome (x # y # xs) 0 = x"
| "nth_outcome (x # y # xs) (Suc n) = nth_outcome (y # xs) n"

definition web_env :: "(string \<times> page option list) list \<Rightarrow> env" where
  "web_env site =
     \<lparr>driver_get = (\<lambda>u n. case map_of site u of None \<Rightarrow> None | Some outs \<Rightarrow> nth_outcome outs n),
      urljoin = (\<lambda>base h. h),
      netloc = netloc_of,
      random_choice = (\<lambda>k ps. ps ! (k mod length ps))\<rparr>"

definition plain_page :: "anchor list \<Rightarrow> page" where
  "plain_page as = Page NoTag NoTag NoTag [] as"

subsection \<open>Example webs\<close>

text \<open>A seed page with two anchors to the same page.\<close>

definition site_dup :: "(string \<times> page option list) list" where
  "site_dup =
     [(''http://a.test/'',
         [Some (plain_page [Anchor ''http://a.test/x'' None, Anchor ''http://a.test/x'' None])]),
      (''http://a.test/x'', [Some (plain_page [])])]"

text \<open>The same, where the linked page names another URL as its canonical one.\<close>

definition site_canon :: "(string \<times> page option list) list" where
  "site_canon =
     [(''http://a.test/'',
         [Some (plain_page [Anchor ''http://a.test/x'' None, Anchor ''http://a.test/x'' None])]),
      (''http://a.test/x'', [Some (Page (Attr ''http://a.test/c'') NoTag NoTag [] [])])]"

text \<open>The seed page links to \<open>/loop/loop/loop/\<close>.\<close>

definition site_loop :: "(string \<times> page option list) list" where
  "site_loop =
     [(''http://a.test/'', [Some (plain_page [Anchor ''http://a.test/loop/loop/loop/'' None])]),
      (''http://a.test/loop/loop/loop/'', [Some (plain_page [])])]"

text \<open>Loading the seed raises twice and succeeds from the third load on.\<close>

definition site_retry :: "(string \<times> page option list) list" where
  "site_retry = [(''http://a.test/'', [None, None, Some (plain_page [])])]"

text \<open>
  Two anchors with a \<open>rel\<close> attribute: \<open>rel="nofollow noopener"\<close> on the first,
  \<open>rel="nofollow"\<close> on the second.
\<close>

definition site_rel :: "(string \<times> page option list) list" where
  "site_rel =
     [(''http://a.test/'',
         [Some (plain_page
            [Anchor ''http://a.test/x'' (Some [''nofollow'', ''noopener'']),
             Anchor ''http://a.test/y'' (Some [''nofollow''])])]),
      (''http://a.test/x'', [Some (plain_page [])]),
      (''http://a.test/y'', [Some (plain_page [])])]"

text \<open>
  The seed on \<open>a.test\<close> names a canonical URL on \<open>b.test\<close> and links to one page on each
  host.
\<close>

definition site_hosts :: "(string \<times> page option list) list" where
  "site_hosts =
     [(''http://a.test/'',
         [Some (Page (Attr ''http://b.test/c'') NoTag NoTag []
            [Anchor ''http://a.test/x'' None, Anchor ''http://b.test/y'' None])]),
      (''http://a.test/x'', [Some (plain_page [])]),
      (''http://b.test/y'', [Some (plain_page [])])]"

text \<open>The seed links to two pages, each of which links to six more.\<close>

definition fan_page :: "string \<Rightarrow> page" where
  "fan_page p = plain_page (map (\<lambda>c. Anchor (p @ [c]) None) ''123456'')"

definition site_fan :: "(string \<times> page option list) list" where
  "site_fan =
     [(''http://a.test/'',
         [Some (plain_page [Anchor ''http://a.test/a'' None, Anchor ''http://a.test/b'' None])]),
      (''http://a.test/a'', [Some (fan_page ''http://a.test/a'')]),
      (''http://a.test/b'', [Some (fan_page ''http://a.test/b'')])]"

section \<open>Properties of the sequential functions\<close>

subsection \<open>The state after a step\<close>

lemma fold_invariant:
  assumes "\<And>x s. x \<in> set xs \<Longrightarrow> I s \<Longrightarrow> I (f x s)" and "I s"
  shows "I (fold f xs s)"
  using assms by (induction xs arbitrary: s) auto

lemma visited_urls_log_error [simp]: "visited_urls (log_error u s) = visited_urls s"
  by (simp add: log_error_def)

lemma save_results_log_error [simp]: "save_results (log_error u s) = save_results s"
  by (simp add: log_error_def)

lemma fetch_log_log_error [simp]: "fetch_log (log_error u s) = fetch_log s"
  by (simp add: log_error_def)

lemma pools_log_error [simp]: "pools (log_error u s) = pools s"
  by (simp add: log_error_def)

lemma visited_urls_visited_add [simp]: "set (visited_urls (visited_add u s)) = insert u (set (visited_urls s))"
  by (simp add: visited_add_def)

lemma save_results_visited_add [simp]: "save_results (visited_add u s) = save_results s"
  by (simp add: visited_add_def)

lemma fetch_log_visited_add [simp]: "fetch_log (visited_add u s) = fetch_log s"
  by (simp add: visited_add_def)

lemma pools_visited_add [simp]: "pools (visited_add u s) = pools s"
  by (simp add: visited_add_def)

subsection \<open>\<open>fetch_url\<close> as a page step followed by the recursive calls\<close>

lemma fetch_url_unfold:
  "fetch_url E url depth dr rl proxies s =
     (if depth = 0 \<or> url \<in> set (visited_urls s) \<or> is_spider_trap url then s
      else case process_page E dr url depth s of
             (s', links) \<Rightarrow> fold (\<lambda>u. fetch_url E u (depth - 1) dr rl proxies) links s')"
  by (subst fetch_url.simps) (simp add: process_page_def Let_def split: option.splits prod.splits)

lemma fetch_url_0 [simp]: "fetch_url E url 0 dr rl proxies s = s"
  by (simp add: fetch_url_unfold)

lemma fetch_url_Suc:
  "fetch_url E url (Suc d) dr rl proxies s =
     (if url \<in> set (visited_urls s) \<or> is_spider_trap url then s
      else case process_page E dr url (Suc d) s of
             (s', links) \<Rightarrow> fold (\<lambda>u. fetch_url E u d dr rl proxies) links s')"
  by (subst fetch_url_unfold) simp

declare fetch_url.simps [simp del]

text \<open>
  The visited set only grows.
\<close>

lemma process_page_visited_mono:
  "process_page E dr url depth s = (s', links) \<Longrightarrow> set (visited_urls s) \<subseteq> set (visited_urls s')"
  by (auto simp: process_page_def Let_def split: option.splits prod.splits)

lemma fetch_url_visited_mono:
  "set (visited_urls s) \<subseteq> set (visited_urls (fetch_url E url d dr rl proxies s))"
proof (induction d arbitrary: url s)
  case 0
  show ?case by simp
next
  case (Suc d)
  have fold_mono: "set (visited_urls t) \<subseteq> set (visited_urls (fold (\<lambda>u. fetch_url E u d dr rl proxies) links t))"
    for links t
    by (rule fold_invariant [where I = "\<lambda>t'. set (visited_urls t) \<subseteq> set (visited_urls t')"])
       (use Suc.IH in blast)+
  show ?case
    using fold_mono process_page_visited_mono
    by (fastforce simp: fetch_url_Suc split: prod.splits)
qed

text \<open>
  A property of the state that every page step keeps is kept by the whole call.
\<close>

lemma fetch_url_invariant:
  assumes step: "\<And>u k t t' links. I t \<Longrightarrow> 0 < k \<Longrightarrow> k \<le> bound \<Longrightarrow> u \<notin> set (visited_urls t) \<Longrightarrow>
                    \<not> is_spider_trap u \<Longrightarrow> process_page E dr u k t = (t', links) \<Longrightarrow> I t'"
    and "d \<le> bound" and "I s"
  shows "I (fetch_url E url d dr rl proxies s)"
  using assms(2,3)
proof (induction d arbitrary: url s)
  case 0
  then show ?case by simp
next
  case (Suc d)
  show ?case
  proof (cases "url \<in> set (visited_urls s) \<or> is_spider_trap url")
    case True
    with Suc.prems show ?thesis by (simp add: fetch_url_Suc)
  next
    case False
    obtain s' links where pp: "process_page E dr url (Suc d) s = (s', links)"
      by (cases "process_page E dr url (Suc d) s")
    have "I s'"
      using step [OF \<open>I s\<close> _ \<open>Suc d \<le> bound\<close> _ _ pp] False by simp
    then have "I (fold (\<lambda>u. fetch_url E u d dr rl proxies) links s')"
      by (rule fold_invariant [rotated]) (use Suc in simp)
    with False pp show ?thesis by (simp add: fetch_url_Suc)
  qed
qed

subsection \<open>What one page step does\<close>

lemma link_dist_first:
  "link_dist E k v w \<Longrightarrow> links_to E u v \<Longrightarrow> link_dist E (Suc k) u w"
proof (induction rule: link_dist.induct)
  case (here v)
  then show ?case by (blast intro: link_dist.intros)
next
  case (hop k v w x)
  then show ?case by (blast intro: link_dist.intros)
qed

lemma collect_links_subset:
  "set (collect_links E dr url vis as) \<subseteq> (\<lambda>a. urljoin E url (href a)) ` set as"
  by (induction as) (auto simp: Let_def)

lemma collect_links_not_visited:
  "l \<in> set (collect_links E dr url vis as) \<Longrightarrow> l \<notin> set vis"
  by (induction as) (auto simp: Let_def split: if_splits)

lemma canonical_url_cases:
  "canonical_url pg url vis = Some url' \<Longrightarrow> url' = url \<or> (canonical pg = Attr url' \<and> url' \<notin> set vis)"
  by (auto simp: canonical_url_def split: attr.splits if_splits)

lemma process_page_links_to:
  "process_page E dr url depth s = (s', links) \<Longrightarrow> l \<in> set links \<Longrightarrow> links_to E url l"
  unfolding process_page_def Let_def links_to_def
  by (auto split: option.splits prod.splits dest!: canonical_url_cases set_mp [OF collect_links_subset])

lemma process_page_fetch_log:
  "process_page E dr url depth s = (s', links) \<Longrightarrow> fetch_log s' = fetch_log s @ [(url, depth)]"
  by (auto simp: process_page_def Let_def split: option.splits prod.splits)

lemma process_page_save_results:
  "process_page E dr u k t = (t', links) \<Longrightarrow>
   save_results t' = save_results t \<or>
   (\<exists>r. save_results t' = save_results t @ [r] \<and> recorded_from E u (fst r))"
  unfolding process_page_def Let_def recorded_from_def
  by (fastforce split: option.splits prod.splits dest!: canonical_url_cases)

lemma process_page_rows:
  assumes "process_page E dr u (Suc k) t = (t', links)"
  shows "\<exists>new. save_results t' = save_results t @ new \<and> list_all (row_ok E u (Suc k)) new"
proof -
  have "row_ok E u (Suc k) r" if "recorded_from E u (fst r)" for r
    unfolding row_ok_def using that link_dist.here [of E u] by blast
  with process_page_save_results [OF assms] show ?thesis
    by (elim disjE exE conjE) (simp, fastforce)
qed

lemma process_page_row_fresh:
  "process_page E dr u k t = (t', links) \<Longrightarrow> u \<notin> set (visited_urls t) \<Longrightarrow>
   save_results t' = save_results t \<or>
   (\<exists>r. save_results t' = save_results t @ [r] \<and> fst r \<notin> set (visited_urls t) \<and>
        fst r \<in> set (visited_urls t'))"
  unfolding process_page_def Let_def
  by (fastforce split: option.splits prod.splits dest!: canonical_url_cases)

lemma process_page_dedup:
  assumes inv: "dedup_inv t" and u: "u \<notin> set (visited_urls t)"
    and pp: "process_page E dr u k t = (t', links)"
  shows "dedup_inv t'"
proof -
  have mono: "set (visited_urls t) \<subseteq> set (visited_urls t')"
    by (rule process_page_visited_mono [OF pp])
  from process_page_row_fresh [OF pp u] show ?thesis
  proof (elim disjE exE conjE)
    assume "save_results t' = save_results t"
    with inv mono show ?thesis by (auto simp: dedup_inv_def result_urls_def)
  next
    fix r
    assume r: "save_results t' = save_results t @ [r]" "fst r \<notin> set (visited_urls t)"
      "fst r \<in> set (visited_urls t')"
    from inv r(2) have "fst r \<notin> set (result_urls t)" by (auto simp: dedup_inv_def)
    with inv mono r(1,3) show ?thesis by (auto simp: dedup_inv_def result_urls_def)
  qed
qed

lemma process_page_pools:
  "process_page E dr u k t = (t', links) \<Longrightarrow>
   length (pools t') + length (save_results t) = length (pools t) + length (save_results t')"
  by (auto simp: process_page_def Let_def split: option.splits prod.splits)

subsection \<open>What a call appends to a log\<close>

text \<open>
  A list of the state that each page step extends by entries with a property \<open>Q\<close>,
  where \<open>Q\<close> passes from a linked page to the page that links to it, is extended by
  the whole call by entries with \<open>Q\<close>.
\<close>

lemma fold_appends:
  assumes step: "\<And>x t. x \<in> set xs \<Longrightarrow> R t \<Longrightarrow>
                   \<exists>new. L (f x t) = L t @ new \<and> list_all Q new \<and> R (f x t)"
    and "R s"
  shows "\<exists>new. L (fold f xs s) = L s @ new \<and> list_all Q new \<and> R (fold f xs s)"
  using assms
proof (induction xs arbitrary: s)
  case Nil
  then show ?case by simp
next
  case (Cons x xs)
  from Cons.prems(1) [of x s] Cons.prems(2)
  obtain n1 where 1: "L (f x s) = L s @ n1" "list_all Q n1" "R (f x s)" by auto
  from Cons.IH [of "f x s"] Cons.prems(1) 1(3)
  obtain n2 where 2: "L (fold f xs (f x s)) = L (f x s) @ n2" "list_all Q n2" "R (fold f xs (f x s))"
    by auto
  from 1 2 show ?case by (intro exI [of _ "n1 @ n2"]) simp
qed

lemma fetch_url_appends:
  fixes L :: "state \<Rightarrow> 'a list"
  assumes page: "\<And>u k t t' links. process_page E dr u (Suc k) t = (t', links) \<Longrightarrow>
                   u \<notin> set (visited_urls t) \<Longrightarrow>
                   \<exists>new. L t' = L t @ new \<and> list_all (Q u (Suc k) (visited_urls t)) new"
    and lift: "\<And>u l k vis vis' e. links_to E u l \<Longrightarrow> set vis \<subseteq> set vis' \<Longrightarrow>
                   Q l k vis' e \<Longrightarrow> Q u (Suc k) vis e"
  shows "\<exists>new. L (fetch_url E url d dr rl proxies s) = L s @ new \<and>
               list_all (Q url d (visited_urls s)) new"
proof (induction d arbitrary: url s)
  case 0
  show ?case by simp
next
  case (Suc d)
  show ?case
  proof (cases "url \<in> set (visited_urls s) \<or> is_spider_trap url")
    case True
    then show ?thesis by (simp add: fetch_url_Suc)
  next
    case False
    obtain s' links where pp: "process_page E dr url (Suc d) s = (s', links)"
      by (cases "process_page E dr url (Suc d) s")
    from page [OF pp] False obtain new0 where
      new0: "L s' = L s @ new0" "list_all (Q url (Suc d) (visited_urls s)) new0" by blast
    have mono': "set (visited_urls s) \<subseteq> set (visited_urls s')"
      by (rule process_page_visited_mono [OF pp])
    have "\<exists>new. L (fold (\<lambda>u. fetch_url E u d dr rl proxies) links s') = L s' @ new \<and>
            list_all (Q url (Suc d) (visited_urls s)) new \<and>
            set (visited_urls s) \<subseteq> set (visited_urls (fold (\<lambda>u. fetch_url E u d dr rl proxies) links s'))"
    proof (rule fold_appends [where R = "\<lambda>t::state. set (visited_urls s) \<subseteq> set (visited_urls t)"])
      fix l and t :: state
      assume l: "l \<in> set links" and t: "set (visited_urls s) \<subseteq> set (visited_urls t)"
      from Suc.IH [of l t] obtain new where
        new: "L (fetch_url E l d dr rl proxies t) = L t @ new"
             "list_all (Q l d (visited_urls t)) new" by blast
      have edge: "links_to E url l" by (rule process_page_links_to [OF pp l])
      from new(2) have "list_all (Q url (Suc d) (visited_urls s)) new"
        using lift [OF edge t] by (auto simp: list_all_iff)
      moreover have "set (visited_urls s) \<subseteq> set (visited_urls (fetch_url E l d dr rl proxies t))"
        using t fetch_url_visited_mono [of t E l d dr rl proxies] by blast
      ultimately show "\<exists>new. L (fetch_url E l d dr rl proxies t) = L t @ new \<and>
            list_all (Q url (Suc d) (visited_urls s)) new \<and>
            set (visited_urls s) \<subseteq> set (visited_urls (fetch_url E l d dr rl proxies t))"
        using new(1) by blast
    qed (rule mono')
    then obtain new where new:
      "L (fold (\<lambda>u. fetch_url E u d dr rl proxies) links s') = L s' @ new"
      "list_all (Q url (Suc d) (visited_urls s)) new" by blast
    from new new0 False pp show ?thesis
      by (intro exI [of _ "new0 @ new"]) (simp add: fetch_url_Suc)
  qed
qed

lemma fetch_url_fetches:
  "\<exists>new. fetch_log (fetch_url E url d dr rl proxies s) = fetch_log s @ new \<and>
         list_all (fetch_ok E (visited_urls s) url d) new"
proof (rule fetch_url_appends [where Q = "\<lambda>u k vis. fetch_ok E vis u k"])
  fix u k links and t t' :: state
  assume "process_page E dr u (Suc k) t = (t', links)" "u \<notin> set (visited_urls t)"
  then show "\<exists>new. fetch_log t' = fetch_log t @ new \<and> list_all (fetch_ok E (visited_urls t) u (Suc k)) new"
    by (simp add: process_page_fetch_log fetch_ok_def link_dist.here)
next
  fix u l k vis vis' and e :: "string \<times> nat"
  assume edge: "links_to E u l" and sub: "set vis \<subseteq> set vis'" and ok: "fetch_ok E vis' l k e"
  from ok have r: "1 \<le> snd e" "snd e \<le> k" and dist: "link_dist E (k - snd e) l (fst e)"
    and nv: "fst e \<notin> set vis'"
    by (simp_all add: fetch_ok_def)
  from link_dist_first [OF dist edge] r have "link_dist E (Suc k - snd e) u (fst e)"
    by (simp add: Suc_diff_le)
  with r nv sub show "fetch_ok E vis u (Suc k) e" by (auto simp: fetch_ok_def)
qed

lemma fetch_url_rows:
  "\<exists>new. save_results (fetch_url E url d dr rl proxies s) = save_results s @ new \<and>
         list_all (row_ok E url d) new"
proof (rule fetch_url_appends [where Q = "\<lambda>u k vis. row_ok E u k"])
  fix u l k and e :: row
  assume "links_to E u l" "row_ok E l k e"
  then show "row_ok E u (Suc k) e"
    unfolding row_ok_def by (blast intro: link_dist_first Suc_mono)
qed (rule process_page_rows)

lemma fetch_url_proxies:
  "fetch_url E url d dr rl proxies s = fetch_url E url d dr rl proxies' s"
proof (induction d arbitrary: url s)
  case 0
  show ?case by simp
next
  case (Suc d)
  then have "(\<lambda>u. fetch_url E u d dr rl proxies) = (\<lambda>u. fetch_url E u d dr rl proxies')"
    by (intro ext)
  then show ?case by (simp add: fetch_url_Suc)
qed

subsection \<open>The queue of \<open>bfs_crawl\<close>\<close>

text \<open>
  Every entry the loop appends is a visited URL and is skipped when its turn comes, so
  the loop is one \<open>crawl_seed\<close> per seed.
\<close>

lemma bfs_loop_all_skipped:
  "list_all (\<lambda>e. depth \<le> snd e \<or> fst e \<in> set (visited_urls s)) queue \<Longrightarrow>
   bfs_loop E start0 depth dr rl proxies queue s = s"
  by (induction queue) auto

lemma bfs_loop_seeds:
  "list_all (\<lambda>e. fst e \<in> set (visited_urls s)) queue \<Longrightarrow>
   bfs_loop E start0 depth dr rl proxies (map (\<lambda>url. (url, 0)) urls @ queue) s =
   fold (crawl_seed E depth dr rl proxies) urls s"
proof (induction urls arbitrary: queue s)
  case Nil
  then show ?case
    by (simp add: bfs_loop_all_skipped list_all_iff)
next
  case (Cons u urls)
  show ?case
  proof (cases "depth \<le> 0 \<or> u \<in> set (visited_urls s)")
    case True
    with Cons show ?thesis by (simp add: crawl_seed_def)
  next
    case False
    define s' where "s' = fetch_url E u (nat depth) dr rl proxies s"
    define pushed where "pushed = map (\<lambda>link. (link, 0 + 1::int)) (filter (is_same_domain E start0) (visited_urls s'))"
    have mono: "set (visited_urls s) \<subseteq> set (visited_urls s')"
      unfolding s'_def by (rule fetch_url_visited_mono)
    have "list_all (\<lambda>e. fst e \<in> set (visited_urls s')) (queue @ pushed)"
      using Cons.prems mono by (auto simp: list_all_iff pushed_def)
    from Cons.IH [OF this]
    have "bfs_loop E start0 depth dr rl proxies (map (\<lambda>url. (url, 0)) urls @ queue @ pushed) s' =
          fold (crawl_seed E depth dr rl proxies) urls s'" .
    moreover have "crawl_seed E depth dr rl proxies u s = s'"
      using False by (simp add: crawl_seed_def s'_def)
    ultimately show ?thesis
      using False by (simp add: s'_def pushed_def Let_def)
  qed
qed

lemma bfs_crawl_fold:
  "bfs_crawl E start_urls depth dr rl proxies s = fold (crawl_seed E depth dr rl proxies) start_urls s"
proof (cases start_urls)
  case Nil
  then show ?thesis by (simp add: bfs_crawl_def)
next
  case (Cons u us)
  with bfs_loop_seeds [of s "[]" E u depth dr rl proxies start_urls] show ?thesis
    by (simp add: bfs_crawl_def)
qed

lemma crawl_seed_visited_mono:
  "set (visited_urls s) \<subseteq> set (visited_urls (crawl_seed E depth dr rl proxies url s))"
  by (simp add: crawl_seed_def fetch_url_visited_mono)

lemma bfs_crawl_visited_mono:
  "set (visited_urls s) \<subseteq> set (visited_urls (bfs_crawl E start_urls depth dr rl proxies s))"
  unfolding bfs_crawl_fold
proof (rule fold_invariant [where I = "\<lambda>t::state. set (visited_urls s) \<subseteq> set (visited_urls t)"])
  fix u and t :: state
  assume "set (visited_urls s) \<subseteq> set (visited_urls t)"
  with crawl_seed_visited_mono [of t E depth dr rl proxies u]
  show "set (visited_urls s) \<subseteq> set (visited_urls (crawl_seed E depth dr rl proxies u t))"
    by blast
qed simp

lemma bfs_crawl_appends:
  fixes L :: "state \<Rightarrow> 'a list"
  assumes call: "\<And>u t. u \<in> set start_urls \<Longrightarrow> set (visited_urls s) \<subseteq> set (visited_urls t) \<Longrightarrow>
                   0 < depth \<Longrightarrow>
                   \<exists>new. L (fetch_url E u (nat depth) dr rl proxies t) = L t @ new \<and> list_all Q new"
  shows "\<exists>new. L (bfs_crawl E start_urls depth dr rl proxies s) = L s @ new \<and> list_all Q new"
proof -
  have "\<exists>new. L (fold (crawl_seed E depth dr rl proxies) start_urls s) = L s @ new \<and>
         list_all Q new \<and>
         set (visited_urls s) \<subseteq> set (visited_urls (fold (crawl_seed E depth dr rl proxies) start_urls s))"
  proof (rule fold_appends [where R = "\<lambda>t::state. set (visited_urls s) \<subseteq> set (visited_urls t)"])
    fix u and t :: state
    assume u: "u \<in> set start_urls" and t: "set (visited_urls s) \<subseteq> set (visited_urls t)"
    have mono: "set (visited_urls s) \<subseteq> set (visited_urls (crawl_seed E depth dr rl proxies u t))"
      using t crawl_seed_visited_mono [of t E depth dr rl proxies u] by blast
    show "\<exists>new. L (crawl_seed E depth dr rl proxies u t) = L t @ new \<and> list_all Q new \<and>
           set (visited_urls s) \<subseteq> set (visited_urls (crawl_seed E depth dr rl proxies u t))"
    proof (cases "depth \<le> 0 \<or> u \<in> set (visited_urls t)")
      case True
      with t show ?thesis by (simp add: crawl_seed_def)
    next
      case False
      with call [OF u t] obtain new where
        "L (fetch_url E u (nat depth) dr rl proxies t) = L t @ new" "list_all Q new" by auto
      with False mono show ?thesis by (auto simp: crawl_seed_def)
    qed
  qed simp
  then show ?thesis by (auto simp: bfs_crawl_fold)
qed

lemma bfs_crawl_invariant:
  assumes step: "\<And>u k t t' links. I t \<Longrightarrow> 0 < k \<Longrightarrow> int k \<le> depth \<Longrightarrow> u \<notin> set (visited_urls t) \<Longrightarrow>
                    \<not> is_spider_trap u \<Longrightarrow> process_page E dr u k t = (t', links) \<Longrightarrow> I t'"
    and "I s"
  shows "I (bfs_crawl E start_urls depth dr rl proxies s)"
  unfolding bfs_crawl_fold
proof (rule fold_invariant [where I = I])
  fix u t
  assume "I t"
  show "I (crawl_seed E depth dr rl proxies u t)"
  proof (cases "depth \<le> 0 \<or> u \<in> set (visited_urls t)")
    case True
    with \<open>I t\<close> show ?thesis by (simp add: crawl_seed_def)
  next
    case False
    have "I (fetch_url E u (nat depth) dr rl proxies t)"
      by (rule fetch_url_invariant [where bound = "nat depth" and I = I])
         (use step \<open>I t\<close> in auto)
    with False show ?thesis by (simp add: crawl_seed_def)
  qed
qed (rule assms(2))

subsection \<open>Whole crawls\<close>

lemma web_crawler_fetches_within:
  "\<exists>new. fetch_log (web_crawler E urls depth dr rl proxies s) = fetch_log s @ new \<and>
         list_all (fetch_within E urls depth) new"
proof -
  let ?s0 = "s\<lparr>save_results := []\<rparr>"
  have "\<exists>new. fetch_log (bfs_crawl E urls depth dr rl proxies ?s0) = fetch_log ?s0 @ new \<and>
          list_all (fetch_within E urls depth) new"
  proof (rule bfs_crawl_appends)
    fix u and t :: state
    assume u: "u \<in> set urls" and d: "0 < depth"
    from fetch_url_fetches [of E u "nat depth" dr rl proxies t] obtain new where
      new: "fetch_log (fetch_url E u (nat depth) dr rl proxies t) = fetch_log t @ new"
           "list_all (fetch_ok E (visited_urls t) u (nat depth)) new" by blast
    have "fetch_within E urls depth e" if "fetch_ok E (visited_urls t) u (nat depth) e" for e
      using that u d by (auto simp: fetch_ok_def fetch_within_def list_ex_iff)
    with new show "\<exists>new. fetch_log (fetch_url E u (nat depth) dr rl proxies t) = fetch_log t @ new \<and>
            list_all (fetch_within E urls depth) new"
      by (auto simp: list_all_iff)
  qed
  then show ?thesis by (simp add: web_crawler_def)
qed

lemma web_crawler_rows_within:
  "list_all (row_within E urls depth) (save_results (web_crawler E urls depth dr rl proxies s))"
proof -
  let ?s0 = "s\<lparr>save_results := []\<rparr>"
  have "\<exists>new. save_results (bfs_crawl E urls depth dr rl proxies ?s0) = save_results ?s0 @ new \<and>
          list_all (row_within E urls depth) new"
  proof (rule bfs_crawl_appends)
    fix u and t :: state
    assume u: "u \<in> set urls" and d: "0 < depth"
    from fetch_url_rows [of E u "nat depth" dr rl proxies t] obtain new where
      new: "save_results (fetch_url E u (nat depth) dr rl proxies t) = save_results t @ new"
           "list_all (row_ok E u (nat depth)) new" by blast
    have "row_within E urls depth r" if "row_ok E u (nat depth) r" for r
    proof -
      from that obtain v k where "k < nat depth" "link_dist E k u v" "recorded_from E v (fst r)"
        by (auto simp: row_ok_def)
      with u d show ?thesis
        unfolding row_within_def list_ex_iff by (intro exI [of _ v] exI [of _ k]) auto
    qed
    with new show "\<exists>new. save_results (fetch_url E u (nat depth) dr rl proxies t) = save_results t @ new \<and>
            list_all (row_within E urls depth) new"
      by (auto simp: list_all_iff)
  qed
  then show ?thesis by (auto simp: web_crawler_def)
qed

lemma web_crawler_fetches_unvisited:
  "\<exists>new. fetch_log (web_crawler E urls depth dr rl proxies s) = fetch_log s @ new \<and>
         list_all (\<lambda>e. fst e \<notin> set (visited_urls s)) new"
proof -
  let ?s0 = "s\<lparr>save_results := []\<rparr>"
  have "\<exists>new. fetch_log (bfs_crawl E urls depth dr rl proxies ?s0) = fetch_log ?s0 @ new \<and>
          list_all (\<lambda>e. fst e \<notin> set (visited_urls s)) new"
  proof (rule bfs_crawl_appends)
    fix u and t :: state
    assume t: "set (visited_urls ?s0) \<subseteq> set (visited_urls t)"
    from fetch_url_fetches [of E u "nat depth" dr rl proxies t] obtain new where
      new: "fetch_log (fetch_url E u (nat depth) dr rl proxies t) = fetch_log t @ new"
           "list_all (fetch_ok E (visited_urls t) u (nat depth)) new" by blast
    have "fst e \<notin> set (visited_urls s)" if "fetch_ok E (visited_urls t) u (nat depth) e" for e
      using that t by (auto simp: fetch_ok_def)
    with new show "\<exists>new. fetch_log (fetch_url E u (nat depth) dr rl proxies t) = fetch_log t @ new \<and>
            list_all (\<lambda>e. fst e \<notin> set (visited_urls s)) new"
      by (auto simp: list_all_iff)
  qed
  then show ?thesis by (simp add: web_crawler_def)
qed

lemma web_crawler_visited_mono:
  "set (visited_urls s) \<subseteq> set (visited_urls (web_crawler E urls depth dr rl proxies s))"
  using bfs_crawl_visited_mono [of "s\<lparr>save_results := []\<rparr>" E urls depth dr rl proxies]
  by (simp add: web_crawler_def)

lemma web_crawler_results_distinct:
  "distinct (result_urls (web_crawler E urls depth dr rl proxies s))"
proof -
  have "dedup_inv (bfs_crawl E urls depth dr rl proxies (s\<lparr>save_results := []\<rparr>))"
  proof (rule bfs_crawl_invariant [where I = dedup_inv])
    show "dedup_inv (s\<lparr>save_results := []\<rparr>)"
      by (simp add: dedup_inv_def result_urls_def)
  qed (rule process_page_dedup)
  then show ?thesis by (simp add: web_crawler_def dedup_inv_def)
qed

lemma web_crawler_pools:
  "length (pools (web_crawler E urls depth dr rl proxies s)) =
   length (pools s) + length (save_results (web_crawler E urls depth dr rl proxies s))"
proof -
  have "length (pools (bfs_crawl E urls depth dr rl proxies (s\<lparr>save_results := []\<rparr>))) =
        length (pools s) + length (save_results (bfs_crawl E urls depth dr rl proxies (s\<lparr>save_results := []\<rparr>)))"
    by (rule bfs_crawl_invariant
          [where I = "\<lambda>t::state. length (pools t) = length (pools s) + length (save_results t)"])
       (use process_page_pools in fastforce, simp)
  then show ?thesis by (simp add: web_crawler_def)
qed

lemma web_crawler_proxies:
  "web_crawler E urls depth dr rl proxies s = web_crawler E urls depth dr rl proxies' s"
proof -
  have "crawl_seed E depth dr rl proxies = crawl_seed E depth dr rl proxies'"
    by (intro ext) (simp add: crawl_seed_def fetch_url_proxies [where proxies = proxies and proxies' = proxies'])
  then show ?thesis by (simp add: web_crawler_def bfs_crawl_fold)
qed

subsection \<open>Termination\<close>

text \<open>
  The recursion of \<open>fetch_url\<close> goes down in the depth, the loop of \<open>bfs_crawl\<close> in
  the multiset order of the queue: both relations of recursive calls are well-founded, so
  every argument is in the domain where the recursion ends.
\<close>

lemma fetch_url_rel_measure:
  "fetch_url_rel x y \<Longrightarrow> (x, y) \<in> measure (\<lambda>(E, url, depth, r). depth)"
  by (erule fetch_url_rel.cases) auto

lemma fetch_url_total:
  "fetch_url_dom (E, url, depth, domain_restriction, rate_limit, proxies, s)"
proof -
  have "wf {(x, y). fetch_url_rel x y}"
    by (rule wf_subset [OF wf_measure]) (auto dest: fetch_url_rel_measure)
  then have "wfp fetch_url_rel" by (simp add: wfp_def)
  then show ?thesis by (rule accp_wfpD)
qed

lemma bfs_loop_rel_order: "bfs_loop_rel x y \<Longrightarrow> (x, y) \<in> bfs_order"
  by (erule bfs_loop_rel.cases) (simp_all add: bfs_order_def queue_weight_skip queue_weight_push)

lemma bfs_loop_total:
  "bfs_loop_dom (E, start_url, depth, domain_restriction, rate_limit, proxies, queue, s)"
proof -
  have "wf {(x, y). bfs_loop_rel x y}"
    by (rule wf_subset [OF wf_bfs_order]) (auto dest: bfs_loop_rel_order)
  then have "wfp bfs_loop_rel" by (simp add: wfp_def)
  then show ?thesis by (rule accp_wfpD)
qed

section \<open>Properties of the interleaved workers\<close>

text \<open>
  Each step replaces a task by tasks of smaller weight, so no schedule runs for ever;
  and running the first task of the pool again and again is \<open>fetch_url\<close>.
\<close>

lemma exec_task_weight:
  "exec_task E dr t s = (s', new) \<Longrightarrow> t' \<in> set new \<Longrightarrow> task_weight t' < task_weight t"
  by (cases t) (auto split: if_splits prod.splits)

lemma pool_step_weight:
  assumes "pool_step E dr c c'"
  shows "(pool_weight c', pool_weight c) \<in> mult {(a, b). a < (b::nat)}"
  using assms
proof cases
  case (1 i ts s s' new)
  have ts: "ts = take i ts @ ts ! i # drop (Suc i) ts"
    using 1(3) by (simp add: id_take_nth_drop)
  let ?I = "mset (map task_weight (take i ts)) + mset (map task_weight (drop (Suc i) ts))"
  have "(?I + mset (map task_weight new), ?I + {#task_weight (ts ! i)#}) \<in> mult {(a, b). a < (b::nat)}"
    using exec_task_weight [OF 1(4)] by (intro one_step_implies_mult) auto
  moreover have "pool_weight c = ?I + {#task_weight (ts ! i)#}"
    unfolding pool_weight_def 1(1) by (subst ts) simp
  moreover have "pool_weight c' = ?I + mset (map task_weight new)"
    unfolding pool_weight_def 1(2) by simp
  ultimately show ?thesis by simp
qed

lemma wf_pool_step: "wf {(c', c). pool_step E dr c c'}"
proof (rule wf_subset)
  show "wf (inv_image (mult {(a, b). a < (b::nat)}) pool_weight)"
    by (intro wf_inv_image wf_mult) (simp add: wf)
  show "{(c', c). pool_step E dr c c'} \<subseteq> inv_image (mult {(a, b). a < (b::nat)}) pool_weight"
    using pool_step_weight by (auto simp: inv_image_def)
qed

lemma run_schedule_append:
  "run_schedule E dr (xs @ ys) c = run_schedule E dr ys (run_schedule E dr xs c)"
  by (simp add: run_schedule_def)

lemma run_task_first:
  "run_task E dr 0 (s, t # rest) = (case exec_task E dr t s of (s', new) \<Rightarrow> (s', new @ rest))"
  by (simp add: run_task_def split: prod.splits)

lemma fetch_url_is_schedule:
  "\<exists>n. run_schedule E dr (replicate n 0) (s, Enter url d # rest) =
        (fetch_url E url d dr rl proxies s, rest)"
proof (induction d arbitrary: url s rest)
  case 0
  show ?case
    by (rule exI [of _ 1]) (simp add: run_schedule_def run_task_first)
next
  case (Suc d)
  have fold_sched: "\<exists>n. run_schedule E dr (replicate n 0) (t, map (\<lambda>u. Enter u d) links @ rest) =
          (fold (\<lambda>u. fetch_url E u d dr rl proxies) links t, rest)" for links t
  proof (induction links arbitrary: t)
    case Nil
    show ?case by (rule exI [of _ 0]) (simp add: run_schedule_def)
  next
    case (Cons l links)
    from Suc.IH [of t l "map (\<lambda>u. Enter u d) links @ rest"] obtain n1 where
      n1: "run_schedule E dr (replicate n1 0) (t, Enter l d # map (\<lambda>u. Enter u d) links @ rest) =
           (fetch_url E l d dr rl proxies t, map (\<lambda>u. Enter u d) links @ rest)" by blast
    from Cons.IH [of "fetch_url E l d dr rl proxies t"] obtain n2 where
      n2: "run_schedule E dr (replicate n2 0)
             (fetch_url E l d dr rl proxies t, map (\<lambda>u. Enter u d) links @ rest) =
           (fold (\<lambda>u. fetch_url E u d dr rl proxies) links (fetch_url E l d dr rl proxies t), rest)"
      by blast
    show ?case
      by (rule exI [of _ "n1 + n2"]) (simp add: replicate_add run_schedule_append n1 n2)
  qed
  show ?case
  proof (cases "url \<in> set (visited_urls s) \<or> is_spider_trap url")
    case True
    then show ?thesis
      by (intro exI [of _ 1]) (auto simp: run_schedule_def run_task_first fetch_url_Suc)
  next
    case False
    obtain s' links where pp: "process_page E dr url (Suc d) s = (s', links)"
      by (cases "process_page E dr url (Suc d) s")
    from fold_sched [of s' links] obtain n where
      n: "run_schedule E dr (replicate n 0) (s', map (\<lambda>u. Enter u d) links @ rest) =
          (fold (\<lambda>u. fetch_url E u d dr rl proxies) links s', rest)" by blast
    have "run_schedule E dr (replicate 2 0) (s, Enter url (Suc d) # rest) =
          (s', map (\<lambda>u. Enter u d) links @ rest)"
      using False pp by (simp add: run_schedule_def run_task_first numeral_2_eq_2)
    then have "run_schedule E dr (replicate (2 + n) 0) (s, Enter url (Suc d) # rest) =
          (fold (\<lambda>u. fetch_url E u d dr rl proxies) links s', rest)"
      by (simp only: replicate_add run_schedule_append n)
    with False pp show ?thesis
      by (intro exI [of _ "2 + n"]) (simp add: fetch_url_Suc)
  qed
qed

text \<open>
  The properties of one call hold in every schedule of its workers: each step keeps
  \<open>schedule_inv\<close>, and a schedule is a sequence of steps.
\<close>

lemma list_all_replace:
  "list_all P ts \<Longrightarrow> list_all P new \<Longrightarrow> list_all P (take i ts @ new @ drop (Suc i) ts)"
  by (auto simp: list_all_iff dest: in_set_takeD in_set_dropD)

lemma exec_task_inv:
  assumes inv: "schedule_inv E s url d (s', ts)" and i: "i < length ts"
    and ex: "exec_task E dr (ts ! i) s' = (s'', new)"
  shows "schedule_inv E s url d (s'', take i ts @ new @ drop (Suc i) ts)"
proof -
  from inv obtain log rows where log: "fetch_log s' = fetch_log s @ log"
      "list_all (fetch_ok E (visited_urls s) url d) log"
    and mono: "set (visited_urls s) \<subseteq> set (visited_urls s')"
    and rows: "save_results s' = save_results s @ rows" "list_all (row_ok E url d) rows"
    and pl: "length (pools s') + length (save_results s) = length (pools s) + length (save_results s')"
    and ts: "list_all (task_ok E (visited_urls s) url d) ts"
    by (auto simp: schedule_inv_def)
  from ts i have ti: "task_ok E (visited_urls s) url d (ts ! i)"
    by (simp add: list_all_length)
  show ?thesis
  proof (cases "ts ! i")
    case (Enter u k)
    with ex have s'': "s'' = s'" by (auto split: if_splits)
    have "list_all (task_ok E (visited_urls s) url d) new"
      using ex ti mono Enter by (auto simp: task_ok_def split: if_splits)
    with ts have "list_all (task_ok E (visited_urls s) url d) (take i ts @ new @ drop (Suc i) ts)"
      by (rule list_all_replace)
    with log mono pl rows s'' show ?thesis by (auto simp: schedule_inv_def)
  next
    case (Body u k)
    obtain links where pp: "process_page E dr u k s' = (s'', links)"
      and new: "new = map (\<lambda>l. Enter l (k - 1)) links"
      using ex Body by (auto split: prod.splits)
    from ti Body have k: "1 \<le> k" "k \<le> d" and dist: "link_dist E (d - k) url u"
      and nv: "u \<notin> set (visited_urls s)"
      by (simp_all add: task_ok_def)
    have "fetch_log s'' = fetch_log s @ (log @ [(u, k)])"
      using process_page_fetch_log [OF pp] log(1) by simp
    moreover have "list_all (fetch_ok E (visited_urls s) url d) (log @ [(u, k)])"
      using log(2) k dist nv by (simp add: fetch_ok_def)
    moreover have "set (visited_urls s) \<subseteq> set (visited_urls s'')"
      using mono process_page_visited_mono [OF pp] by blast
    moreover have "\<exists>rows. save_results s'' = save_results s @ rows \<and> list_all (row_ok E url d) rows"
    proof -
      have "row_ok E url d r" if "recorded_from E u (fst r)" for r
        unfolding row_ok_def using that dist k by (intro exI [of _ u] exI [of _ "d - k"]) simp
      with process_page_save_results [OF pp] rows show ?thesis by auto
    qed
    moreover have "length (pools s'') + length (save_results s) = length (pools s) + length (save_results s'')"
      using pl process_page_pools [OF pp] by simp
    moreover have "list_all (task_ok E (visited_urls s) url d) new"
    proof -
      have "task_ok E (visited_urls s) url d (Enter l (k - 1))" if "l \<in> set links" for l
      proof -
        from process_page_links_to [OF pp that] dist
        have "link_dist E (Suc (d - k)) url l" by (rule link_dist.hop [rotated])
        moreover from k have "Suc (d - k) = d - (k - 1)" by simp
        ultimately show ?thesis using k by (simp add: task_ok_def)
      qed
      then show ?thesis by (simp add: new list_all_iff)
    qed
    then have "list_all (task_ok E (visited_urls s) url d) (take i ts @ new @ drop (Suc i) ts)"
      by (rule list_all_replace [OF ts])
    ultimately show ?thesis unfolding schedule_inv_def by (simp only: fst_conv snd_conv) blast
  qed
qed

lemma schedule_inv_start: "schedule_inv E s url d (s, [Enter url d])"
  by (simp add: schedule_inv_def task_ok_def link_dist.here)

lemma pool_steps_inv:
  assumes "(pool_step E dr)\<^sup>*\<^sup>* (s, [Enter url d]) c"
  shows "schedule_inv E s url d c"
  using assms
proof (induction rule: rtranclp_induct)
  case base
  show ?case by (rule schedule_inv_start)
next
  case (step c c')
  from step.hyps(2) show ?case
  proof cases
    case (1 i ts s' s'' new)
    with step.IH exec_task_inv [of E s url d s' ts i dr s'' new] show ?thesis by simp
  qed
qed

lemma run_task_steps: "(pool_step E dr)\<^sup>*\<^sup>* c (run_task E dr i c)"
proof (cases c)
  case (Pair s ts)
  show ?thesis
  proof (cases "i < length ts")
    case True
    obtain s' new where ex: "exec_task E dr (ts ! i) s = (s', new)"
      by (cases "exec_task E dr (ts ! i) s")
    with True Pair have "pool_step E dr c (run_task E dr i c)"
      by (simp add: run_task_def pool_step.intros)
    then show ?thesis by (rule r_into_rtranclp)
  next
    case False
    with Pair show ?thesis by (simp add: run_task_def)
  qed
qed

lemma run_schedule_steps: "(pool_step E dr)\<^sup>*\<^sup>* c (run_schedule E dr sched c)"
proof (induction sched arbitrary: c)
  case Nil
  show ?case by (simp add: run_schedule_def)
next
  case (Cons i sched)
  have "(pool_step E dr)\<^sup>*\<^sup>* c (run_task E dr i c)" by (rule run_task_steps)
  also have "(pool_step E dr)\<^sup>*\<^sup>* (run_task E dr i c) (run_schedule E dr sched (run_task E dr i c))"
    by (rule Cons.IH)
  finally show ?case by (simp add: run_schedule_def)
qed

section \<open>Properties of the threads, line by line\<close>

text \<open>
  Every step keeps \<open>threads_inv\<close>: the pools of the live threads are pools that the
  call has created, no pool runs more than \<open>max_workers\<close> tasks, and the pools are as
  many as the rows, the calls between the row and the pool apart. The workers of all
  pools together are then at most \<open>max_workers\<close> for each pool created.
\<close>

lemma count_replace:
  assumes "i < length ts"
  shows "length (filter P (take i ts @ repl @ drop (Suc i) ts @ new)) + length (filter P [ts ! i]) =
         length (filter P ts) + length (filter P repl) + length (filter P new)"
proof -
  have "ts = take i ts @ [ts ! i] @ drop (Suc i) ts"
    using assms by (simp add: id_take_nth_drop)
  then have "length (filter P ts) =
      length (filter P (take i ts)) + length (filter P [ts ! i]) + length (filter P (drop (Suc i) ts))"
    by (metis add.assoc filter_append length_append)
  then show ?thesis by simp
qed

lemma thread_step_running:
  assumes "thread_step E dr ts t s = (s', repl, new)"
  shows "length (filter (\<lambda>t. pool_of t = Some q \<and> at t \<noteq> Queued) repl) +
         length (filter (\<lambda>t. pool_of t = Some q \<and> at t \<noteq> Queued) new) \<le>
         length (filter (\<lambda>t. pool_of t = Some q \<and> at t \<noteq> Queued) [t]) +
         (if running q ts < max_workers then 1 else 0)"
  using assms
  by (cases "(E, dr, ts, t, s)" rule: thread_step.cases)
     (auto simp: Let_def split: if_splits option.splits prod.splits)

lemma thread_step_rows:
  assumes "thread_step E dr ts t s = (s', repl, new)"
  shows "length (pools s') + (length (filter past_row repl) + length (filter past_row new)) + length (save_results s) =
         length (pools s) + length (filter past_row [t]) + length (save_results s')"
  using assms
  by (cases "(E, dr, ts, t, s)" rule: thread_step.cases)
     (auto simp: Let_def log_error_def visited_add_def split: if_splits option.splits prod.splits)

lemma thread_step_pools:
  assumes "thread_step E dr ts t s = (s', repl, new)" and "pool_in lo (length (pools s)) t"
    and "lo \<le> length (pools s)"
  shows "length (pools s) \<le> length (pools s') \<and>
         list_all (pool_in lo (length (pools s'))) repl \<and> list_all (pool_in lo (length (pools s'))) new"
  using assms
  by (cases "(E, dr, ts, t, s)" rule: thread_step.cases)
     (auto simp: Let_def log_error_def visited_add_def pool_in_def list_all_iff
           split: if_splits option.splits prod.splits)


lemma pool_in_mono: "pool_in lo hi t \<Longrightarrow> hi \<le> hi' \<Longrightarrow> pool_in lo hi' t"
  by (auto simp: pool_in_def split: option.splits)

lemma run_thread_inv:
  assumes inv: "threads_inv s c"
  shows "threads_inv s (run_thread E dr i c)"
proof (cases c)
  case (Pair s1 ts)
  show ?thesis
  proof (cases "i < length ts")
    case False
    with inv Pair show ?thesis by (simp add: run_thread_def)
  next
    case True
    obtain s2 repl new where st: "thread_step E dr ts (ts ! i) s1 = (s2, repl, new)"
      by (cases "thread_step E dr ts (ts ! i) s1")
    let ?ts' = "take i ts @ repl @ drop (Suc i) ts @ new"
    have c': "run_thread E dr i c = (s2, ?ts')"
      using True st Pair by (simp add: run_thread_def)
    from inv Pair have le: "length (pools s) \<le> length (pools s1)"
      and ids: "list_all (pool_in (length (pools s)) (length (pools s1))) ts"
      and run: "\<And>q. running q ts \<le> max_workers"
      and rows: "length (pools s1) + length (filter past_row ts) + length (save_results s) =
        length (pools s) + length (save_results s1)"
      by (simp_all add: threads_inv_def)
    from ids True have idi: "pool_in (length (pools s)) (length (pools s1)) (ts ! i)"
      by (simp add: list_all_length)
    from thread_step_pools [OF st idi le]
    have le2: "length (pools s1) \<le> length (pools s2)"
      and idr: "list_all (pool_in (length (pools s)) (length (pools s2))) repl"
      and idn: "list_all (pool_in (length (pools s)) (length (pools s2))) new"
      by simp_all
    from ids le2 have "list_all (pool_in (length (pools s)) (length (pools s2))) ts"
      by (auto simp: list_all_iff intro: pool_in_mono)
    with idr idn have ids': "list_all (pool_in (length (pools s)) (length (pools s2))) ?ts'"
      by (auto simp: list_all_iff dest: in_set_takeD in_set_dropD)
    have run': "running q ?ts' \<le> max_workers" for q
    proof -
      let ?P = "\<lambda>t. pool_of t = Some q \<and> at t \<noteq> Queued"
      from count_replace [OF True, of ?P repl new]
      have "running q ?ts' + length (filter ?P [ts ! i]) =
            running q ts + length (filter ?P repl) + length (filter ?P new)"
        by (simp add: running_def)
      with thread_step_running [OF st, of q] run [of q] show ?thesis
        by (simp split: if_splits)
    qed
    have rows': "length (pools s2) + length (filter past_row ?ts') + length (save_results s) =
        length (pools s) + length (save_results s2)"
      using count_replace [OF True, of past_row repl new] thread_step_rows [OF st] rows
      by simp
    from le le2 ids' run' rows' show ?thesis
      unfolding c' threads_inv_def by simp
  qed
qed

lemma threads_inv_start: "threads_inv s (s, [Thread None url d L84])"
  by (simp add: threads_inv_def pool_in_def running_def)

lemma run_threads_inv:
  "threads_inv s (run_threads E dr sched (s, [Thread None url d L84]))"
proof -
  have "threads_inv s (fold (run_thread E dr) sched c)" if "threads_inv s c" for c
    using that by (induction sched arbitrary: c) (simp_all add: run_thread_inv)
  from this [OF threads_inv_start] show ?thesis by (simp add: run_threads_def)
qed

lemma workers_sum:
  assumes "list_all (pool_in lo hi) ts"
  shows "length (filter is_worker ts) = (\<Sum>q = lo..<hi. running q ts)"
  using assms
proof (induction ts)
  case Nil
  show ?case by (simp add: running_def)
next
  case (Cons t ts)
  have "(\<Sum>q = lo..<hi. if pool_of t = Some q \<and> at t \<noteq> Queued then 1 else 0) =
        (if is_worker t then 1 else (0::nat))"
  proof (cases "pool_of t")
    case None
    then show ?thesis by (simp add: is_worker_def)
  next
    case (Some q0)
    with Cons.prems have "q0 \<in> {lo..<hi}" by (simp add: pool_in_def)
    then have "(\<Sum>q = lo..<hi. if q0 = q \<and> at t \<noteq> Queued then 1 else 0) =
               (if at t \<noteq> Queued then 1 else (0::nat))"
      by (cases "at t = Queued") (simp_all add: sum.delta')
    with Some show ?thesis by (simp add: is_worker_def)
  qed
  moreover have "running q (t # ts) =
      (if pool_of t = Some q \<and> at t \<noteq> Queued then 1 else 0) + running q ts" for q
    by (simp add: running_def)
  ultimately show ?case using Cons by (simp add: sum.distrib)
qed

lemma workers_bound:
  assumes "threads_inv s c"
  shows "length (filter is_worker (snd c)) \<le> max_workers * (length (pools (fst c)) - length (pools s))"
proof -
  from assms have "length (filter is_worker (snd c)) =
      (\<Sum>q = length (pools s)..<length (pools (fst c)). running q (snd c))"
    by (intro workers_sum) (simp add: threads_inv_def)
  also have "\<dots> \<le> (\<Sum>q = length (pools s)..<length (pools (fst c)). max_workers)"
    using assms by (intro sum_mono) (simp add: threads_inv_def)
  finally show ?thesis by (simp add: mult.commute)
qed

subsection \<open>The calls one after the other, as a schedule of the threads\<close>

text \<open>
  \<open>fetch_url\<close> runs the tasks of a pool one after the other. That run is one of the
  schedules of the threads: the thread of a call goes from line 84 to the end of its
  \<open>with\<close> block, each task of its pool is started when the one before has returned,
  and the state at the end is the one \<open>fetch_url\<close> returns. The pools of the other
  threads have to be older than the ones this call creates.
\<close>

lemma reaches_refl: "reaches E dr c c"
  unfolding reaches_def by (rule exI [of _ "[]"]) (simp add: run_threads_def)

lemma reaches_trans: "reaches E dr c c' \<Longrightarrow> reaches E dr c' c'' \<Longrightarrow> reaches E dr c c''"
  unfolding reaches_def
proof (elim exE)
  fix a b
  assume "run_threads E dr a c = c'" "run_threads E dr b c' = c''"
  then have "run_threads E dr (a @ b) c = c''" by (simp add: run_threads_def)
  then show "\<exists>sched. run_threads E dr sched c = c''" ..
qed

lemma reaches_step:
  assumes "thread_step E dr (pre @ t # post) t s = (s', repl, new)"
  shows "reaches E dr (s, pre @ t # post) (s', pre @ repl @ post @ new)"
  unfolding reaches_def
  by (rule exI [of _ "[length pre]"]) (simp add: run_threads_def run_thread_def nth_append assms)

lemma collect_links_append:
  "collect_links E dr url vis (as @ bs) = collect_links E dr url vis as @ collect_links E dr url vis bs"
  by (induction as) (auto simp: Let_def)

lemma loop_112:
  "reaches E dr (s, pre @ Thread p url d (L112 as links) # post)
     (s, pre @ Thread p url d (L129 (links @ collect_links E dr url (visited_urls s) as)) # post)"
proof (induction as arbitrary: links)
  case Nil
  show ?case using reaches_step [of E dr pre "Thread p url d (L112 [] links)" post s] by simp
next
  case (Cons a as)
  have "reaches E dr (s, pre @ Thread p url d (L112 (a # as) links) # post)
      (s, pre @ Thread p url d (L112 as (links @ collect_links E dr url (visited_urls s) [a])) # post)"
    using reaches_step [of E dr pre "Thread p url d (L112 (a # as) links)" post s] by simp
  moreover have "reaches E dr
      (s, pre @ Thread p url d (L112 as (links @ collect_links E dr url (visited_urls s) [a])) # post)
      (s, pre @ Thread p url d
        (L129 ((links @ collect_links E dr url (visited_urls s) [a]) @ collect_links E dr url (visited_urls s) as)) # post)"
    by (rule Cons.IH)
  moreover have "(links @ collect_links E dr url (visited_urls s) [a]) @ collect_links E dr url (visited_urls s) as =
      links @ collect_links E dr url (visited_urls s) (a # as)"
    using collect_links_append [of E dr url "visited_urls s" "[a]" as] by simp
  ultimately show ?case by (auto intro: reaches_trans)
qed

lemma page_steps:
  assumes "process_page E dr url d s = (s', links)"
  shows "(reaches E dr (s, pre @ Thread p url d L92 # post) (s', pre @ post) \<and> links = []) \<or>
         (\<exists>s3 url'. reaches E dr (s, pre @ Thread p url d L92 # post)
              (s3, pre @ Thread p url' d (L129 links) # post) \<and>
              s' = s3\<lparr>pools := pools s3 @ [length links]\<rparr> \<and> pools s3 = pools s)"
proof -
  let ?s1 = "s\<lparr>fetch_log := fetch_log s @ [(url, d)]\<rparr>"
  show ?thesis
  proof (cases "driver_get E url (count_list (map fst (fetch_log s)) url)")
    case None
    with assms have "s' = log_error url ?s1" "links = []"
      by (simp_all add: process_page_def Let_def)
    moreover have "reaches E dr (s, pre @ Thread p url d L92 # post) (log_error url ?s1, pre @ post)"
      using reaches_step [of E dr pre "Thread p url d L92" post s] None by (simp add: Let_def)
    ultimately show ?thesis by blast
  next
    case (Some pg)
    note dg = Some
    have st1: "reaches E dr (s, pre @ Thread p url d L92 # post) (?s1, pre @ Thread p url d (L98 pg) # post)"
      using reaches_step [of E dr pre "Thread p url d L92" post s] dg by (simp add: Let_def)
    show ?thesis
    proof (cases "canonical_url pg url (visited_urls ?s1)")
      case None
      with assms dg have "s' = log_error url ?s1" "links = []"
        by (simp_all add: process_page_def Let_def)
      moreover have "reaches E dr (?s1, pre @ Thread p url d (L98 pg) # post) (log_error url ?s1, pre @ post)"
        using reaches_step [of E dr pre "Thread p url d (L98 pg)" post ?s1] None by simp
      ultimately show ?thesis using st1 by (blast intro: reaches_trans)
    next
      case (Some url')
      note cu = Some
      let ?s2 = "visited_add url' ?s1"
      have st2: "reaches E dr (?s1, pre @ Thread p url d (L98 pg) # post) (?s1, pre @ Thread p url' d (L101 pg) # post)"
        using reaches_step [of E dr pre "Thread p url d (L98 pg)" post ?s1] cu by simp
      have st2': "reaches E dr (?s1, pre @ Thread p url' d (L101 pg) # post) (?s2, pre @ Thread p url' d (L108 pg) # post)"
        using reaches_step [of E dr pre "Thread p url' d (L101 pg)" post ?s1] by simp
      from st1 st2 st2' have st12: "reaches E dr (s, pre @ Thread p url d L92 # post)
          (?s2, pre @ Thread p url' d (L108 pg) # post)"
        by (blast intro: reaches_trans)
      show ?thesis
      proof (cases "extract_content pg")
        case None
        with assms dg cu have "s' = log_error url' ?s2" "links = []"
          by (simp_all add: process_page_def Let_def)
        moreover have "reaches E dr (?s2, pre @ Thread p url' d (L108 pg) # post) (log_error url' ?s2, pre @ post)"
          using reaches_step [of E dr pre "Thread p url' d (L108 pg)" post ?s2] None by simp
        ultimately show ?thesis using st12 by (blast intro: reaches_trans)
      next
        case (Some c)
        obtain md mk imgs where c: "c = (md, mk, imgs)" by (cases c)
        let ?s3 = "?s2\<lparr>save_results := save_results ?s2 @ [(url', md, mk, imgs)]\<rparr>"
        from assms dg cu Some c
        have res: "links = collect_links E dr url' (visited_urls ?s3) (anchors pg)"
          "s' = ?s3\<lparr>pools := pools ?s3 @ [length links]\<rparr>"
          by (auto simp: process_page_def Let_def)
        have st3: "reaches E dr (?s2, pre @ Thread p url' d (L108 pg) # post)
            (?s3, pre @ Thread p url' d (L112 (anchors pg) []) # post)"
          using reaches_step [of E dr pre "Thread p url' d (L108 pg)" post ?s2] Some c by simp
        have st4: "reaches E dr (?s3, pre @ Thread p url' d (L112 (anchors pg) []) # post)
            (?s3, pre @ Thread p url' d (L129 links) # post)"
          using loop_112 [of E dr ?s3 pre p url' d "anchors pg" "[]" post] res(1) by simp
        from st12 st3 st4 have "reaches E dr (s, pre @ Thread p url d L92 # post)
            (?s3, pre @ Thread p url' d (L129 links) # post)"
          by (blast intro: reaches_trans)
        moreover have "pools ?s3 = pools s" by (simp add: visited_add_def)
        ultimately show ?thesis using res(2) by blast
      qed
    qed
  qed
qed


lemma running_none:
  assumes "\<forall>t\<in>set ts. pool_of t = Some q \<longrightarrow> at t = Queued"
  shows "running q ts = 0"
  using assms by (auto simp: running_def filter_empty_conv)

lemma pool_live_none:
  assumes "\<forall>t\<in>set ts. pool_of t \<noteq> Some q"
  shows "\<not> pool_live q ts"
  using assms by (auto simp: pool_live_def list_ex_iff)

lemma fetch_url_pools_mono:
  "length (pools s) \<le> length (pools (fetch_url E url d dr rl proxies s))"
  by (rule fetch_url_invariant [where bound = d and I = "\<lambda>t. length (pools s) \<le> length (pools t)"])
     (auto simp: process_page_def Let_def visited_add_def log_error_def split: option.splits prod.splits)

lemma fetch_url_is_thread_schedule:
  assumes "\<forall>t\<in>set (pre @ Thread p url d L84 # post). \<forall>q. pool_of t = Some q \<longrightarrow> q < length (pools s)"
  shows "reaches E dr (s, pre @ Thread p url d L84 # post) (fetch_url E url d dr rl proxies s, pre @ post)"
  using assms
proof (induction d arbitrary: url s pre post p)
  case 0
  show ?case using reaches_step [of E dr pre "Thread p url 0 L84" post s] by simp
next
  case (Suc d)
  show ?case
  proof (cases "url \<in> set (visited_urls s) \<or> is_spider_trap url")
    case True
    then show ?thesis
      using reaches_step [of E dr pre "Thread p url (Suc d) L84" post s] by (auto simp: fetch_url_Suc)
  next
    case False
    obtain s' links where pp: "process_page E dr url (Suc d) s = (s', links)"
      by (cases "process_page E dr url (Suc d) s")
    have res: "fetch_url E url (Suc d) dr rl proxies s = fold (\<lambda>u. fetch_url E u d dr rl proxies) links s'"
      using False pp by (simp add: fetch_url_Suc)
    have st0: "reaches E dr (s, pre @ Thread p url (Suc d) L84 # post) (s, pre @ Thread p url (Suc d) L92 # post)"
      using reaches_step [of E dr pre "Thread p url (Suc d) L84" post s] False by simp
    from page_steps [OF pp, of pre p post]
    consider (err) "reaches E dr (s, pre @ Thread p url (Suc d) L92 # post) (s', pre @ post)" "links = []"
      | (row) s3 url' where "reaches E dr (s, pre @ Thread p url (Suc d) L92 # post)
              (s3, pre @ Thread p url' (Suc d) (L129 links) # post)"
          "s' = s3\<lparr>pools := pools s3 @ [length links]\<rparr>" "pools s3 = pools s"
      by blast
    then show ?thesis
    proof cases
      case err
      with st0 res show ?thesis by (auto intro: reaches_trans)
    next
      case row
      let ?q = "length (pools s)"
      let ?w = "Thread p url' (Suc d) (Waiting ?q)"
      let ?pre = "pre @ ?w # post"
      have st1: "reaches E dr (s3, pre @ Thread p url' (Suc d) (L129 links) # post)
          (s', pre @ ?w # post @ map (\<lambda>u. Thread (Some ?q) u d Queued) links)"
        using reaches_step [of E dr pre "Thread p url' (Suc d) (L129 links)" post s3] row(2,3) by simp
      have old: "\<forall>t\<in>set ?pre. \<forall>q. pool_of t = Some q \<longrightarrow> q < ?q"
        using Suc.prems by auto
      have kids: "length (pools s) < length (pools t) \<Longrightarrow>
          reaches E dr (t, ?pre @ map (\<lambda>u. Thread (Some ?q) u d Queued) us)
            (fold (\<lambda>u. fetch_url E u d dr rl proxies) us t, ?pre)" for us t
      proof (induction us arbitrary: t)
        case Nil
        show ?case by (simp add: reaches_refl)
      next
        case (Cons u us)
        let ?rest = "map (\<lambda>u. Thread (Some ?q) u d Queued) us"
        have "running ?q (?pre @ Thread (Some ?q) u d Queued # ?rest) = 0"
          by (rule running_none) (use old in auto)
        then have a: "reaches E dr (t, ?pre @ Thread (Some ?q) u d Queued # ?rest)
            (t, ?pre @ Thread (Some ?q) u d L84 # ?rest)"
          using reaches_step [of E dr ?pre "Thread (Some ?q) u d Queued" ?rest t]
          by (simp add: max_workers_def)
        have "\<forall>x\<in>set (?pre @ Thread (Some ?q) u d L84 # ?rest). \<forall>q. pool_of x = Some q \<longrightarrow> q < length (pools t)"
          using old Cons.prems by fastforce
        then have b: "reaches E dr (t, ?pre @ Thread (Some ?q) u d L84 # ?rest)
            (fetch_url E u d dr rl proxies t, ?pre @ ?rest)"
          by (rule Suc.IH)
        have "length (pools s) < length (pools (fetch_url E u d dr rl proxies t))"
          using Cons.prems fetch_url_pools_mono [of t E u d dr rl proxies] by simp
        then have c: "reaches E dr (fetch_url E u d dr rl proxies t, ?pre @ ?rest)
            (fold (\<lambda>u. fetch_url E u d dr rl proxies) us (fetch_url E u d dr rl proxies t), ?pre)"
          by (rule Cons.IH)
        from a b c show ?case by (auto intro: reaches_trans)
      qed
      have "length (pools s) < length (pools s')"
        using row(2,3) by simp
      then have st2: "reaches E dr (s', ?pre @ map (\<lambda>u. Thread (Some ?q) u d Queued) links)
          (fold (\<lambda>u. fetch_url E u d dr rl proxies) links s', ?pre)"
        by (rule kids)
      have "\<not> pool_live ?q ?pre"
        by (rule pool_live_none) (use old in auto)
      then have st3: "reaches E dr (fold (\<lambda>u. fetch_url E u d dr rl proxies) links s', ?pre)
          (fold (\<lambda>u. fetch_url E u d dr rl proxies) links s', pre @ post)"
        using reaches_step [of E dr pre ?w post "fold (\<lambda>u. fetch_url E u d dr rl proxies) links s'"]
        by simp
      have "reaches E dr (s, pre @ Thread p url (Suc d) L84 # post)
          (fold (\<lambda>u. fetch_url E u d dr rl proxies) links s', pre @ post)"
      proof -
        from st2 have st2': "reaches E dr
            (s', pre @ ?w # post @ map (\<lambda>u. Thread (Some ?q) u d Queued) links)
            (fold (\<lambda>u. fetch_url E u d dr rl proxies) links s', ?pre)"
          by simp
        show ?thesis
          by (rule reaches_trans [OF st0 reaches_trans [OF row(1) reaches_trans [OF st1 reaches_trans [OF st2' st3]]]])
      qed
      with res show ?thesis by simp
    qed
  qed
qed

section \<open>The pieces of a URL\<close>

lemma split_slash_nonempty: "split_slash u \<noteq> []"
  by (induction u) (auto split: list.splits)

lemma split_slash_piece:
  "CHR ''/'' \<notin> set a \<Longrightarrow> split_slash (a @ CHR ''/'' # b) = a # split_slash b"
  by (induction a) (auto split: list.splits)

lemma split_slash_repeat:
  "CHR ''/'' \<notin> set seg \<Longrightarrow>
   split_slash (concat (replicate n (seg @ ''/''))) = replicate n seg @ [[]]"
  by (induction n) (simp_all add: split_slash_piece)

lemma split_slash_http:
  assumes "CHR ''/'' \<notin> set host" "CHR ''/'' \<notin> set seg"
  shows "split_slash (''http://'' @ host @ ''/'' @ concat (replicate n (seg @ ''/''))) =
         ''http:'' # [] # host # replicate n seg @ [[]]"
  using assms split_slash_repeat [of seg n] by (simp add: split_slash_piece)

lemma spider_trap_repeat:
  assumes "CHR ''/'' \<notin> set host" "CHR ''/'' \<notin> set seg" "host \<noteq> []" "seg \<noteq> []"
    "host \<noteq> seg" "host \<noteq> ''http:''" "seg \<noteq> ''http:''"
  shows "is_spider_trap (''http://'' @ host @ ''/'' @ concat (replicate n (seg @ ''/''))) = (5 \<le> n)"
proof -
  let ?pieces = "''http:'' # [] # host # replicate n seg @ [[]]"
  have trap: "is_spider_trap (''http://'' @ host @ ''/'' @ concat (replicate n (seg @ ''/''))) =
        (2 * card (set ?pieces) < length ?pieces)"
    unfolding is_spider_trap_def split_slash_http [OF assms(1,2)] ..
  show ?thesis
  proof (cases "n = 0")
    case True
    with assms have "card (set ?pieces) = 3" by (simp add: card_insert_if)
    with True show ?thesis unfolding trap by simp
  next
    case False
    then have "set (replicate n seg) = {seg}" by auto
    with assms have "card (set ?pieces) = 4" by (simp add: card_insert_if)
    then show ?thesis unfolding trap by auto
  qed
qed

lemma spider_trap_distinct: "distinct (split_slash u) \<Longrightarrow> \<not> is_spider_trap u"
  by (simp add: is_spider_trap_def distinct_card)

section \<open>The crawl of \<open>site_loop\<close>\<close>

text \<open>
  The seed page of \<open>site_loop\<close> links to \<open>http://a.test/loop/loop/loop/\<close>; neither URL
  is flagged, so with any maximum depth of at least 2 both pages are loaded and
  recorded, with or without the domain restriction.
\<close>

lemma site_loop_seed:
  "driver_get (web_env site_loop) ''http://a.test/'' n =
     Some (plain_page [Anchor ''http://a.test/loop/loop/loop/'' None])"
  by (simp add: web_env_def site_loop_def)

lemma site_loop_link:
  "driver_get (web_env site_loop) ''http://a.test/loop/loop/loop/'' n = Some (plain_page [])"
  by (simp add: web_env_def site_loop_def)

lemma loop_same_domain:
  "is_same_domain (web_env site_loop) ''http://a.test/'' ''http://a.test/loop/loop/loop/''"
  by code_simp

lemma loop_not_trap:
  "\<not> is_spider_trap ''http://a.test/loop/loop/loop/''" "\<not> is_spider_trap ''http://a.test/''"
  by code_simp+

lemma urljoin_web_env: "urljoin (web_env site) base h = h"
  by (simp add: web_env_def)

lemma loop_process_seed:
  assumes "''http://a.test/'' \<notin> set (visited_urls s)" "''http://a.test/loop/loop/loop/'' \<notin> set (visited_urls s)"
  shows "\<exists>s'. process_page (web_env site_loop) dr ''http://a.test/'' k s = (s', [''http://a.test/loop/loop/loop/'']) \<and>
     save_results s' = save_results s @ [(''http://a.test/'', [], [], [])] \<and>
     set (visited_urls s') = insert ''http://a.test/'' (set (visited_urls s))"
  using assms loop_same_domain
  by (simp add: process_page_def site_loop_seed plain_page_def canonical_url_def extract_content_def
      meta_content_def Let_def startswith_http_def urljoin_web_env)


lemma loop_process_link:
  "\<exists>s'. process_page (web_env site_loop) dr ''http://a.test/loop/loop/loop/'' k s = (s', []) \<and>
     save_results s' = save_results s @ [(''http://a.test/loop/loop/loop/'', [], [], [])]"
  by (simp add: process_page_def site_loop_link plain_page_def canonical_url_def extract_content_def
      meta_content_def Let_def)

lemma loop_link_recorded:
  assumes "2 \<le> depth"
  shows "result_urls (web_crawler (web_env site_loop) [''http://a.test/''] depth dr rl proxies init_state) =
         [''http://a.test/'', ''http://a.test/loop/loop/loop/'']"
proof -
  let ?S = "''http://a.test/''" and ?L = "''http://a.test/loop/loop/loop/''"
  let ?s0 = "init_state\<lparr>save_results := []\<rparr>"
  from assms have "nat depth = Suc (Suc (nat depth - 2))" by simp
  then obtain k where k: "nat depth = Suc (Suc k)" ..
  have vis0: "visited_urls ?s0 = []" "save_results ?s0 = []" by (simp_all add: init_state_def)
  from loop_process_seed [of ?s0 dr "Suc (Suc k)"] vis0 obtain s1 where
    s1: "process_page (web_env site_loop) dr ?S (Suc (Suc k)) ?s0 = (s1, [?L])"
        "save_results s1 = [(?S, [], [], [])]" "set (visited_urls s1) = {?S}"
    by auto
  from loop_process_link [of dr "Suc k" s1] s1(2) obtain s2 where
    s2: "process_page (web_env site_loop) dr ?L (Suc k) s1 = (s2, [])"
        "save_results s2 = [(?S, [], [], []), (?L, [], [], [])]"
    by auto
  have "fetch_url (web_env site_loop) ?L (Suc k) dr rl proxies s1 = s2"
    using s1(3) s2(1) loop_not_trap by (simp add: fetch_url_Suc)
  then have "fetch_url (web_env site_loop) ?S (Suc (Suc k)) dr rl proxies ?s0 = s2"
    using s1(1) vis0 loop_not_trap by (simp add: fetch_url_Suc)
  with k assms vis0 s2(2) show ?thesis
    by (simp add: web_crawler_def bfs_crawl_fold crawl_seed_def result_urls_def)
qed

section \<open>The claims\<close>

subsection \<open>C1: no URL is recorded twice\<close>

text \<open>
  C1. Each URL is to appear in the recorded results at most once, the test for a visited
  URL and the marking of it being one atomic step, so that no two loads of the same URL
  both record a result, also with several workers. The script tests in line 84 and marks
  in line 101, with the load of the page in between. On \<open>site_dup\<close> the seed page
  submits two tasks for \<open>http://a.test/x\<close>. In the schedule below both workers pass the
  test of line 84 before either reaches line 101 (picks 3 and 4), and both append a row:
  the URL is recorded twice. On \<open>site_canon\<close>, with the workers run one after the
  other, two loads of \<open>http://a.test/x\<close> both record a row: the first load records the
  page under its canonical URL and marks only that one, so the second task loads the
  page again and records it under its own URL. With the workers of every pool run one
  after the other the URLs of the rows are pairwise different
  (\<open>web_crawler_results_distinct\<close>): a URL in two rows comes from the interleaving
  alone.
\<close>

theorem same_url_recorded_twice:
  "result_urls (fst (run_schedule (web_env site_dup) False [0, 0, 0, 1, 0, 0]
       (init_state, [Enter ''http://a.test/'' 2]))) =
     [''http://a.test/'', ''http://a.test/x'', ''http://a.test/x''] \<and>
   snd (run_schedule (web_env site_dup) False [0, 0, 0, 1, 0, 0]
       (init_state, [Enter ''http://a.test/'' 2])) = [] \<and>
   fetched_urls (web_crawler (web_env site_canon) [''http://a.test/''] 2 False (0::int) None init_state) =
     [''http://a.test/'', ''http://a.test/x'', ''http://a.test/x''] \<and>
   result_urls (web_crawler (web_env site_canon) [''http://a.test/''] 2 False (0::int) None init_state) =
     [''http://a.test/'', ''http://a.test/c'', ''http://a.test/x'']"
  by code_simp

subsection \<open>C2: the depth bound\<close>



subsection \<open>C3: the visited set and the invocations of \<open>web_crawler\<close>\<close>

text \<open>
  C3. Each call of \<open>web_crawler\<close> is to start with an empty visited set, so that a URL
  loaded in one invocation is loaded again when a later invocation comes to it. The
  script keeps \<open>visited_urls\<close> at module level and \<open>web_crawler\<close> only makes a new
  \<open>save_results\<close>: a second crawl of the seed of \<open>site_dup\<close> in the same process loads
  nothing and records nothing.
\<close>

theorem second_run_loads_nothing:
  "fetched_urls (web_crawler (web_env site_dup) [''http://a.test/''] 1 False (0::int) None init_state) =
     [''http://a.test/''] \<and>
   fetch_log (web_crawler (web_env site_dup) [''http://a.test/''] 1 False (0::int) None
       (web_crawler (web_env site_dup) [''http://a.test/''] 1 False (0::int) None init_state)) =
     fetch_log (web_crawler (web_env site_dup) [''http://a.test/''] 1 False (0::int) None init_state) \<and>
   save_results (web_crawler (web_env site_dup) [''http://a.test/''] 1 False (0::int) None
       (web_crawler (web_env site_dup) [''http://a.test/''] 1 False (0::int) None init_state)) = []"
  by code_simp

text \<open>
  C3, as the script has it. The visited set is the one of the process: an invocation of
  \<open>web_crawler\<close> keeps every URL that was visited before it started, and loads no URL
  that was visited before it started. The same holds of the workers that one call of
  \<open>fetch_url\<close> starts, in whatever order they run.
\<close>

theorem visited_set_outlives_run:
  "set (visited_urls s) \<subseteq>
     set (visited_urls (web_crawler E urls depth domain_restriction rate_limit proxies s)) \<and>
   (\<exists>new. fetch_log (web_crawler E urls depth domain_restriction rate_limit proxies s) =
            fetch_log s @ new \<and>
          list_all (\<lambda>e. fst e \<notin> set (visited_urls s)) new) \<and>
   ((pool_step E domain_restriction)\<^sup>*\<^sup>* (s, [Enter url d]) (s', ts) \<longrightarrow>
      set (visited_urls s) \<subseteq> set (visited_urls s') \<and>
      (\<exists>new. fetch_log s' = fetch_log s @ new \<and>
             list_all (\<lambda>e. fst e \<notin> set (visited_urls s)) new))"
proof (intro conjI impI)
  show "set (visited_urls s) \<subseteq>
     set (visited_urls (web_crawler E urls depth domain_restriction rate_limit proxies s))"
    by (rule web_crawler_visited_mono)
next
  show "\<exists>new. fetch_log (web_crawler E urls depth domain_restriction rate_limit proxies s) =
            fetch_log s @ new \<and>
          list_all (\<lambda>e. fst e \<notin> set (visited_urls s)) new"
    by (rule web_crawler_fetches_unvisited)
next
  assume "(pool_step E domain_restriction)\<^sup>*\<^sup>* (s, [Enter url d]) (s', ts)"
  then have inv: "schedule_inv E s url d (s', ts)" by (rule pool_steps_inv)
  then show "set (visited_urls s) \<subseteq> set (visited_urls s')"
    by (simp add: schedule_inv_def)
  from inv obtain new where "fetch_log s' = fetch_log s @ new"
    "list_all (fetch_ok E (visited_urls s) url d) new"
    by (auto simp: schedule_inv_def)
  then show "\<exists>new. fetch_log s' = fetch_log s @ new \<and>
             list_all (\<lambda>e. fst e \<notin> set (visited_urls s)) new"
    by (auto simp: list_all_iff fetch_ok_def)
qed

text \<open>
  The state left by a first crawl of \<open>site_dup\<close> has the seed in its visited set; the
  worker of a second call for the seed ends at the test of line 84.
\<close>

theorem visited_set_outlives_run_witness:
  "(pool_step (web_env site_dup) False)\<^sup>*\<^sup>*
     (web_crawler (web_env site_dup) [''http://a.test/''] 1 False (0::int) None init_state,
      [Enter ''http://a.test/'' 1])
     (web_crawler (web_env site_dup) [''http://a.test/''] 1 False (0::int) None init_state, []) \<and>
   visited_urls (web_crawler (web_env site_dup) [''http://a.test/''] 1 False (0::int) None init_state) =
     [''http://a.test/''] \<and>
   set (visited_urls (web_crawler (web_env site_dup) [''http://a.test/''] 1 False (0::int) None init_state)) \<subseteq>
     set (visited_urls (web_crawler (web_env site_dup) [''http://a.test/''] 1 False (0::int) None
       (web_crawler (web_env site_dup) [''http://a.test/''] 1 False (0::int) None init_state)))"
proof -
  let ?E = "web_env site_dup"
  let ?s = "web_crawler ?E [''http://a.test/''] 1 False (0::int) None init_state"
  have vis: "visited_urls ?s = [''http://a.test/'']" by code_simp
  have "run_schedule ?E False [0] (?s, [Enter ''http://a.test/'' 1]) = (?s, [])"
    by (simp add: run_schedule_def run_task_def vis)
  with run_schedule_steps [of ?E False "(?s, [Enter ''http://a.test/'' 1])" "[0]"]
  have steps: "(pool_step ?E False)\<^sup>*\<^sup>* (?s, [Enter ''http://a.test/'' 1]) (?s, [])"
    by simp
  from visited_set_outlives_run [where E = ?E and s = ?s and urls = "[''http://a.test/'']"
      and depth = 1 and domain_restriction = False and rate_limit = "0::int" and proxies = None
      and url = "''http://a.test/''" and d = 1 and s' = ?s and ts = "[]"]
  have "set (visited_urls ?s) \<subseteq>
     set (visited_urls (web_crawler ?E [''http://a.test/''] 1 False (0::int) None ?s))"
    by blast
  with steps vis show ?thesis by blast
qed

subsection \<open>C4: the spider-trap check\<close>

text \<open>
  C4. The check is to flag exactly the URLs whose path repeats one component three times
  in a row or has more than 20 segments, so that a link to \<open>/loop/loop/loop/\<close> found on
  a seed page is rejected and never recorded. The script compares the number of distinct
  pieces of the whole URL with half the number of pieces: \<open>http://a.test/loop/loop/loop/\<close>
  has seven pieces, four of them distinct, and is not flagged; the crawl of \<open>site_loop\<close>
  with depth 2 records it.
\<close>

theorem loop_link_not_flagged:
  "\<not> is_spider_trap ''http://a.test/loop/loop/loop/'' \<and>
   result_urls (web_crawler (web_env site_loop) [''http://a.test/''] 2 False (0::int) None init_state) =
     [''http://a.test/'', ''http://a.test/loop/loop/loop/'']"
  by code_simp

text \<open>
  C4, as the script has it. A URL is flagged exactly when the number of distinct pieces
  between its slashes (scheme, empty piece and host included) is below half the number
  of pieces. For \<open>http://host/\<close> followed by \<open>n\<close> times the same component and a slash,
  where host and component are not empty, contain no slash and differ from each other
  and from \<open>http:\<close>, this is the case exactly from five repetitions on. A URL whose
  pieces are pairwise different is not flagged, however many it has. And the link to
  \<open>http://a.test/loop/loop/loop/\<close> on the seed page \<open>http://a.test/\<close> is loaded and
  recorded with every maximum depth of at least 2.
\<close>

theorem spider_trap_half_distinct:
  assumes "CHR ''/'' \<notin> set host" and "CHR ''/'' \<notin> set seg" and "host \<noteq> []" and "seg \<noteq> []"
    and "host \<noteq> seg" and "host \<noteq> ''http:''" and "seg \<noteq> ''http:''"
  shows "is_spider_trap u = (2 * card (set (split_slash u)) < length (split_slash u)) \<and>
         is_spider_trap (''http://'' @ host @ ''/'' @ concat (replicate n (seg @ ''/''))) = (5 \<le> n) \<and>
         (distinct (split_slash u) \<longrightarrow> \<not> is_spider_trap u) \<and>
         (2 \<le> depth \<longrightarrow>
            result_urls (web_crawler (web_env site_loop) [''http://a.test/''] depth
              domain_restriction rate_limit proxies init_state) =
            [''http://a.test/'', ''http://a.test/loop/loop/loop/''])"
  using spider_trap_repeat [OF assms] spider_trap_distinct
    loop_link_recorded [of depth domain_restriction rate_limit proxies]
  by (auto simp: is_spider_trap_def)

theorem spider_trap_half_distinct_witness:
  "CHR ''/'' \<notin> set ''a.test'' \<and> CHR ''/'' \<notin> set ''loop'' \<and> ''a.test'' \<noteq> [] \<and> ''loop'' \<noteq> [] \<and>
   ''a.test'' \<noteq> ''loop'' \<and> ''a.test'' \<noteq> ''http:'' \<and> ''loop'' \<noteq> ''http:'' \<and>
   is_spider_trap ''http://a.test/loop/loop/loop/loop/loop/'' \<and>
   \<not> is_spider_trap ''http://a.test/loop/loop/loop/'' \<and>
   distinct (split_slash ''http://a.test/a/b/c/d/e/f/g/h/i/j/k/l/m/n/o/p/q/r/s/t/u/v'') \<and>
   \<not> is_spider_trap ''http://a.test/a/b/c/d/e/f/g/h/i/j/k/l/m/n/o/p/q/r/s/t/u/v'' \<and>
   (2::int) \<le> 3 \<and>
   result_urls (web_crawler (web_env site_loop) [''http://a.test/''] 3 True (0::int) None init_state) =
     [''http://a.test/'', ''http://a.test/loop/loop/loop/'']"
proof -
  let ?u = "''http://a.test/a/b/c/d/e/f/g/h/i/j/k/l/m/n/o/p/q/r/s/t/u/v''"
  have hyps: "CHR ''/'' \<notin> set ''a.test''" "CHR ''/'' \<notin> set ''loop''" "''a.test'' \<noteq> []"
    "''loop'' \<noteq> []" "''a.test'' \<noteq> ''loop''" "''a.test'' \<noteq> ''http:''" "''loop'' \<noteq> ''http:''"
    by simp_all
  have d: "distinct (split_slash ?u)"
    by code_simp
  from spider_trap_half_distinct [OF hyps, of ?u 5 3 True "0::int" None] d
  have 5: "is_spider_trap ''http://a.test/loop/loop/loop/loop/loop/''"
    and u: "\<not> is_spider_trap ?u"
    and r: "result_urls (web_crawler (web_env site_loop) [''http://a.test/''] 3 True (0::int) None init_state) =
     [''http://a.test/'', ''http://a.test/loop/loop/loop/'']"
    by (simp_all add: eval_nat_numeral)
  from spider_trap_half_distinct [OF hyps, of ?u 3 3 True "0::int" None]
  have 3: "\<not> is_spider_trap ''http://a.test/loop/loop/loop/''"
    by (simp add: eval_nat_numeral)
  from hyps d 5 u r 3 show ?thesis by simp
qed

subsection \<open>C5: retries\<close>

text \<open>
  C5. A page load that fails with a passing error is to be tried again, with growing
  pauses, and the page recorded once when a later try succeeds. The script sets up a
  \<open>requests\<close> session with \<open>Retry(total=5, backoff_factor=1, ...)\<close> and never uses it:
  pages are loaded by \<open>driver.get\<close>, once per call of \<open>fetch_url\<close>, and an exception
  ends the call. On \<open>site_retry\<close> the first two loads of the seed raise and the third
  would succeed; the crawl loads the seed once, logs the error and records nothing.
\<close>

theorem failed_load_not_retried:
  "driver_get (web_env site_retry) ''http://a.test/'' 0 = None \<and>
   driver_get (web_env site_retry) ''http://a.test/'' 1 = None \<and>
   driver_get (web_env site_retry) ''http://a.test/'' 2 = Some (plain_page []) \<and>
   fetch_log (web_crawler (web_env site_retry) [''http://a.test/''] 2 False (0::int) None init_state) =
     [(''http://a.test/'', 2)] \<and>
   error_log (web_crawler (web_env site_retry) [''http://a.test/''] 2 False (0::int) None init_state) =
     [''http://a.test/''] \<and>
   save_results (web_crawler (web_env site_retry) [''http://a.test/''] 2 False (0::int) None init_state) = []"
  by code_simp

subsection \<open>C6: \<open>nofollow\<close> among other tokens\<close>

text \<open>
  C6. A link is to be skipped whenever \<open>nofollow\<close> is one of the tokens of its \<open>rel\<close>
  attribute. The script skips a link only when \<open>link.get('rel')\<close> is the list
  \<open>['nofollow']\<close>. On \<open>site_rel\<close> the link with \<open>rel="nofollow noopener"\<close> is
  collected, loaded and recorded, the one with \<open>rel="nofollow"\<close> is not.
\<close>

theorem nofollow_among_tokens_followed:
  "collect_links (web_env site_rel) False ''http://a.test/'' [''http://a.test/'']
     [Anchor ''http://a.test/x'' (Some [''nofollow'', ''noopener'']),
      Anchor ''http://a.test/y'' (Some [''nofollow''])] = [''http://a.test/x''] \<and>
   fetched_urls (web_crawler (web_env site_rel) [''http://a.test/''] 2 False (0::int) None init_state) =
     [''http://a.test/'', ''http://a.test/x''] \<and>
   result_urls (web_crawler (web_env site_rel) [''http://a.test/''] 2 False (0::int) None init_state) =
     [''http://a.test/'', ''http://a.test/x'']"
  by code_simp

subsection \<open>C7: the domain restriction\<close>

text \<open>
  C7. With the domain restriction on, every URL that is loaded is to have the host of a
  seed, also behind a page whose URL was replaced by its canonical link. The script
  compares a link with the URL it goes on with after line 99, which is the canonical URL:
  on \<open>site_hosts\<close> the seed on \<open>a.test\<close> names a canonical URL on \<open>b.test\<close>, its link
  to \<open>a.test\<close> is dropped and its link to \<open>b.test\<close> is loaded.
\<close>

theorem canonical_link_leaves_seed_host:
  "fetched_urls (web_crawler (web_env site_hosts) [''http://a.test/''] 2 True (0::int) None init_state) =
     [''http://a.test/'', ''http://b.test/y''] \<and>
   extract_domain (web_env site_hosts) ''http://a.test/'' = ''a.test'' \<and>
   extract_domain (web_env site_hosts) ''http://b.test/y'' = ''b.test''"
  by code_simp

subsection \<open>C8: termination\<close>

text \<open>
  C8. The crawl ends after finitely many steps, for every maximum depth and any number of
  workers. The recursion of \<open>fetch_url\<close> ends on every argument, the loop of
  \<open>bfs_crawl\<close> ends from every queue, and the steps of the pool workers admit no
  infinite schedule, whatever the pages link to.
\<close>

theorem crawl_terminates:
  "fetch_url_dom (E, url, d, domain_restriction, rate_limit, proxies, s) \<and>
   bfs_loop_dom (E, start_url, depth, domain_restriction, rate_limit, proxies, queue, s) \<and>
   wf {(c', c). pool_step E domain_restriction c c'}"
  using fetch_url_total [of E url d domain_restriction rate_limit proxies s]
    bfs_loop_total [of E start_url depth domain_restriction rate_limit proxies queue s]
    wf_pool_step [of E domain_restriction]
  by blast

subsection \<open>C9: the number of workers\<close>

text \<open>
  C9. The number of workers that run at one time is to stay below one fixed pool size,
  no page starting a pool or recursive workers of its own. The script creates a
  \<open>ThreadPoolExecutor(max_workers=10)\<close> in every call of \<open>fetch_url\<close> that records a
  page, and its workers call \<open>fetch_url\<close>. On \<open>site_fan\<close> with depth 3 the crawl makes
  three pools, of two, six and six tasks, and in the schedule below twelve workers are
  past the test of line 84 at the same time, none of the pools holding more than ten
  tasks.
\<close>

theorem workers_beyond_pool_size:
  "length (filter is_body (snd (run_schedule (web_env site_fan) False
       [0, 0, 0, 1, 0, 6, 0, 1, 2, 3, 4, 5, 6, 7, 8, 9, 10, 11]
       (init_state, [Enter ''http://a.test/'' 3])))) = 12 \<and>
   pools (fst (run_schedule (web_env site_fan) False
       [0, 0, 0, 1, 0, 6, 0, 1, 2, 3, 4, 5, 6, 7, 8, 9, 10, 11]
       (init_state, [Enter ''http://a.test/'' 3]))) = [2, 6, 6]"
  by code_simp

text \<open>
  C9, as the script has it. The workers are bounded for each pool, not for the run. In
  every schedule of the threads that one call of \<open>fetch_url\<close> starts, at every point:
  no pool runs more than ten of its tasks; the workers of all pools that are running a
  call are at most ten for each pool created so far; and every page recorded so far has
  a pool of its own, the calls that stand between their row (line 108) and their pool
  (line 129) apart. A whole crawl, its pools run in the order of the links, creates
  exactly as many pools as it records pages, and the run of \<open>fetch_url\<close> in that order
  is one of the schedules of the threads: it ends with no thread left, in the state
  that \<open>fetch_url\<close> returns. (\<open>urljoin\<close> and \<open>urlparse\<close> are total, see above: an
  exception between lines 108 and 129 would leave a recorded page without a pool.)
\<close>

theorem workers_bounded_per_pool:
  "running q (snd (run_threads E domain_restriction sched (s, [Thread None url d L84]))) \<le> 10 \<and>
   length (filter is_worker
     (snd (run_threads E domain_restriction sched (s, [Thread None url d L84])))) \<le>
   10 * (length (pools (fst (run_threads E domain_restriction sched (s, [Thread None url d L84])))) -
         length (pools s)) \<and>
   length (pools (fst (run_threads E domain_restriction sched (s, [Thread None url d L84])))) +
   length (filter past_row (snd (run_threads E domain_restriction sched (s, [Thread None url d L84])))) +
   length (save_results s) =
   length (pools s) +
   length (save_results (fst (run_threads E domain_restriction sched (s, [Thread None url d L84])))) \<and>
   length (pools (web_crawler E urls depth domain_restriction rate_limit proxies s)) =
   length (pools s) +
   length (save_results (web_crawler E urls depth domain_restriction rate_limit proxies s)) \<and>
   (\<exists>in_order. run_threads E domain_restriction in_order (s, [Thread None url d L84]) =
      (fetch_url E url d domain_restriction rate_limit proxies s, []))"
proof -
  let ?c = "run_threads E domain_restriction sched (s, [Thread None url d L84])"
  have in_order: "\<exists>in_order. run_threads E domain_restriction in_order (s, [Thread None url d L84]) =
      (fetch_url E url d domain_restriction rate_limit proxies s, [])"
    using fetch_url_is_thread_schedule [of "[]" None url d "[]" s E domain_restriction rate_limit proxies]
    by (simp add: reaches_def)
  have inv: "threads_inv s ?c" by (rule run_threads_inv)
  then have "running q (snd ?c) \<le> 10"
    by (simp add: threads_inv_def max_workers_def)
  moreover from workers_bound [OF inv]
  have "length (filter is_worker (snd ?c)) \<le> 10 * (length (pools (fst ?c)) - length (pools s))"
    by (simp add: max_workers_def)
  moreover from inv
  have "length (pools (fst ?c)) + length (filter past_row (snd ?c)) + length (save_results s) =
      length (pools s) + length (save_results (fst ?c))"
    by (simp add: threads_inv_def)
  ultimately show ?thesis
    using web_crawler_pools [of E urls depth domain_restriction rate_limit proxies s] in_order by blast
qed

text \<open>
  On \<open>site_fan\<close> with depth 3: the main thread runs to the end of its \<open>with\<close> block,
  the two workers of its pool do the same, and the twelve tasks of their pools are
  started. Fourteen workers are then running a call, two, six and six of the three
  pools.
\<close>

theorem workers_bounded_per_pool_witness:
  "map (\<lambda>q. running q (snd (run_threads (web_env site_fan) False
       (replicate 9 0 @ replicate 14 1 @ replicate 14 2 @ [3, 4, 5, 6, 7, 8, 9, 10, 11, 12, 13, 14])
       (init_state, [Thread None ''http://a.test/'' 3 L84])))) [0, 1, 2] = [2, 6, 6] \<and>
   length (filter is_worker (snd (run_threads (web_env site_fan) False
       (replicate 9 0 @ replicate 14 1 @ replicate 14 2 @ [3, 4, 5, 6, 7, 8, 9, 10, 11, 12, 13, 14])
       (init_state, [Thread None ''http://a.test/'' 3 L84])))) = 14 \<and>
   pools (fst (run_threads (web_env site_fan) False
       (replicate 9 0 @ replicate 14 1 @ replicate 14 2 @ [3, 4, 5, 6, 7, 8, 9, 10, 11, 12, 13, 14])
       (init_state, [Thread None ''http://a.test/'' 3 L84]))) = [2, 6, 6] \<and>
   length (filter is_worker (snd (run_threads (web_env site_fan) False
       (replicate 9 0 @ replicate 14 1 @ replicate 14 2 @ [3, 4, 5, 6, 7, 8, 9, 10, 11, 12, 13, 14])
       (init_state, [Thread None ''http://a.test/'' 3 L84])))) \<le>
   10 * (length (pools (fst (run_threads (web_env site_fan) False
       (replicate 9 0 @ replicate 14 1 @ replicate 14 2 @ [3, 4, 5, 6, 7, 8, 9, 10, 11, 12, 13, 14])
       (init_state, [Thread None ''http://a.test/'' 3 L84])))) - length (pools init_state))"
proof -
  let ?c = "run_threads (web_env site_fan) False
       (replicate 9 0 @ replicate 14 1 @ replicate 14 2 @ [3, 4, 5, 6, 7, 8, 9, 10, 11, 12, 13, 14])
       (init_state, [Thread None ''http://a.test/'' 3 L84])"
  have 1: "map (\<lambda>q. running q (snd ?c)) [0, 1, 2] = [2, 6, 6]" by code_simp
  have 2: "length (filter is_worker (snd ?c)) = 14" by code_simp
  have 3: "pools (fst ?c) = [2, 6, 6]" by code_simp
  from workers_bounded_per_pool [where E = "web_env site_fan" and domain_restriction = False
      and sched = "replicate 9 0 @ replicate 14 1 @ replicate 14 2 @ [3, 4, 5, 6, 7, 8, 9, 10, 11, 12, 13, 14]"
      and s = init_state and url = "''http://a.test/''" and d = 3 and q = 0
      and urls = "[]" and depth = 0 and rate_limit = "0::int" and proxies = None]
  have 4: "length (filter is_worker (snd ?c)) \<le>
      10 * (length (pools (fst ?c)) - length (pools init_state))"
    by blast
  from 1 2 3 4 show ?thesis by blast
qed

subsection \<open>C10: the proxies\<close>

text \<open>
  C10. Two crawls that differ in the list of proxies only load the same pages in the
  same order and record the same rows: the proxy drawn in line 89 is never handed to the
  driver. The whole final state is the same. (The steps of the interleaved workers,
  \<open>exec_task\<close>, do not take the proxies at all.)
\<close>

theorem proxies_never_used:
  "web_crawler E urls depth domain_restriction rate_limit proxies s =
   web_crawler E urls depth domain_restriction rate_limit proxies' s"
  by (rule web_crawler_proxies)

end
